theory Spec2Isabelle
  imports
    Main
    "HOL-Library.Word"
    "HOL-Library.Signed_Division"
    "HOL-Library.Monad_Syntax"
    "HOL-Library.Sublist"
begin

section \<open>minimal-todo: the data model of main.c\<close>

text \<open>
  The program is one C file. Its state is a handful of globals: the array
  \<^verbatim>\<open>Todo todos[MAX_TODOS]\<close>, the counters \<^verbatim>\<open>todo_count\<close> and \<^verbatim>\<open>selected\<close>, and the
  three filter variables. The model keeps them as they are declared:
  \<^item> a C \<^verbatim>\<open>int\<close> is a 32-bit word, read as two's complement (\<open>sint\<close>, \<open><s\<close>, \<open>\<le>s\<close>);
    \<^verbatim>\<open>time_t\<close> is a 64-bit word (Linux, LP64);
  \<^item> a \<^verbatim>\<open>char[MAX_LENGTH]\<close> buffer is a list of bytes, terminator and the bytes after it
    included; the C string held by a buffer is the part before the first NUL;
  \<^item> what C leaves undefined (an index outside \<^verbatim>\<open>todos\<close>, a string read that finds no
    terminator, a line longer than the buffer \<^verbatim>\<open>getstr\<close> writes to) is the value
    \<open>None\<close>; a function that can reach such a point returns an \<open>option\<close>.
\<close>

type_synonym c_int = "32 word"
type_synonym time_t = "64 word"

abbreviation MAX_TODOS :: "'a::numeral" where "MAX_TODOS \<equiv> 100"
abbreviation MAX_LENGTH :: "'a::numeral" where "MAX_LENGTH \<equiv> 128"

abbreviation NUL :: char where "NUL \<equiv> CHR 0x00"

record Todo =
  t_text :: string
  t_category :: string
  t_due_date :: time_t
  t_done :: c_int
  t_padding :: "32 word"

record state =
  todos :: "Todo list"
  todo_count :: c_int
  selected :: c_int
  filter_category :: string
  filter_done :: c_int
  search_term :: string

text \<open>
  The last field is not a member of the struct: it is the four bytes that the compiler
  leaves behind \<^verbatim>\<open>done\<close> so that the next element of the array is aligned (x86-64). No
  statement of the program names them; an assignment of the whole struct, \<^verbatim>\<open>fwrite\<close>
  and \<^verbatim>\<open>fread\<close> copy them with the rest.

  Globals without an initialiser are zero; \<^verbatim>\<open>filter_done\<close> starts at -1.
\<close>

definition zero_buf :: string where
  "zero_buf = replicate MAX_LENGTH NUL"

definition zero_todo :: Todo where
  "zero_todo = \<lparr>t_text = zero_buf, t_category = zero_buf, t_due_date = 0, t_done = 0,
     t_padding = 0\<rparr>"

definition init_state :: state where
  "init_state = \<lparr>todos = replicate MAX_TODOS zero_todo, todo_count = 0, selected = 0,
     filter_category = zero_buf, filter_done = - 1, search_term = zero_buf\<rparr>"

subsection \<open>Array access\<close>

text \<open>\<^verbatim>\<open>todos[i]\<close>: defined only for an index inside the array.\<close>

definition in_array :: "Todo list \<Rightarrow> c_int \<Rightarrow> bool" where
  "in_array ts i \<longleftrightarrow> 0 \<le>s i \<and> nat (sint i) < length ts"

definition todo_at :: "Todo list \<Rightarrow> c_int \<Rightarrow> Todo option" where
  "todo_at ts i = (if in_array ts i then Some (ts ! nat (sint i)) else None)"

definition todo_put :: "Todo list \<Rightarrow> c_int \<Rightarrow> Todo \<Rightarrow> Todo list option" where
  "todo_put ts i t = (if in_array ts i then Some (ts[nat (sint i) := t]) else None)"

subsection \<open>C strings and the library calls the program makes\<close>

text \<open>
  The functions of this subsection are not code of the program: they are the calls it
  makes into libc and ncurses, modelled from their manual pages on byte buffers.
\<close>

text \<open>The string a buffer holds; reading a buffer without terminator runs off its end.\<close>

definition str :: "string \<Rightarrow> string" where
  "str b = takeWhile (\<lambda>c. c \<noteq> NUL) b"

definition cstr :: "string \<Rightarrow> string option" where
  "cstr b = (if NUL \<in> set b then Some (str b) else None)"

text \<open>
  \<^verbatim>\<open>getstr(buf)\<close> stores the line the user typed and a terminator at the start of the
  buffer and leaves the bytes behind them as they were. It does not know the size of
  the buffer: a line that does not fit is written past its end.
\<close>

definition getstr :: "string \<Rightarrow> string \<Rightarrow> string option" where
  "getstr buf line =
     (if length line < length buf
      then Some (line @ NUL # drop (Suc (length line)) buf)
      else None)"

text \<open>
  A local \<^verbatim>\<open>char buf[MAX_LENGTH]\<close> is not initialised. Its bytes are only read up to the
  terminator \<^verbatim>\<open>getstr\<close> writes, so the model starts it with zeros.
\<close>

definition local_buf :: string where
  "local_buf = replicate MAX_LENGTH NUL"

text \<open>
  \<^verbatim>\<open>strncpy(dst, src, n)\<close> copies the string in \<open>src\<close>, at most \<open>n\<close> bytes of it, and
  fills up to \<open>n\<close> bytes with NUL. Bytes of \<open>dst\<close> from \<open>n\<close> on are not written; when
  the string has \<open>n\<close> bytes or more, no terminator is written.
\<close>

definition strncpy :: "string \<Rightarrow> string \<Rightarrow> nat \<Rightarrow> string option" where
  "strncpy dst src n =
     (if n \<le> length dst \<and> (NUL \<in> set (take n src) \<or> n \<le> length src)
      then let s = str (take n src)
           in Some (s @ replicate (n - length s) NUL @ drop n dst)
      else None)"

text \<open>\<^verbatim>\<open>tolower\<close> in the C locale (the program never calls \<^verbatim>\<open>setlocale\<close>).\<close>

definition tolower :: "char \<Rightarrow> char" where
  "tolower c =
     (if 65 \<le> (of_char c :: nat) \<and> (of_char c :: nat) \<le> 90
      then char_of ((of_char c :: nat) + 32) else c)"

text \<open>
  \<^verbatim>\<open>strcasecmp(s1, s2)\<close>: walks both strings, comparing the lowered bytes as unsigned
  values, up to the first difference or the terminator.
\<close>

fun strcasecmp :: "string \<Rightarrow> string \<Rightarrow> int option" where
  "strcasecmp (a # as) (b # bs) =
     (let r = int (of_char (tolower a)) - int (of_char (tolower b))
      in if r \<noteq> 0 then Some r
         else if a = NUL then Some 0
         else strcasecmp as bs)"
| "strcasecmp _ _ = None"

text \<open>
  \<^verbatim>\<open>strcasestr(haystack, needle)\<close>: the first position of the haystack at which the
  needle occurs, ignoring case, or \<^verbatim>\<open>NULL\<close>. The position is an offset into the
  haystack; \<^verbatim>\<open>NULL\<close> is the inner \<open>None\<close>.
\<close>

fun starts_with_ci :: "string \<Rightarrow> string \<Rightarrow> bool" where
  "starts_with_ci h [] = True"
| "starts_with_ci [] (n # ns) = False"
| "starts_with_ci (c # h) (n # ns) = (tolower c = tolower n \<and> starts_with_ci h ns)"

fun find_ci :: "string \<Rightarrow> string \<Rightarrow> nat option" where
  "find_ci [] n = (if n = [] then Some 0 else None)"
| "find_ci (c # h) n =
     (if starts_with_ci (c # h) n then Some 0 else map_option Suc (find_ci h n))"

definition strcasestr :: "string \<Rightarrow> string \<Rightarrow> nat option option" where
  "strcasestr haystack needle = do {
     h \<leftarrow> cstr haystack;
     n \<leftarrow> cstr needle;
     Some (find_ci h n)
   }"

subsection \<open>The filter predicate\<close>

text \<open>
  \<^verbatim>\<open>todo_matches_filter\<close>, with the short-circuit evaluation of the three conditions:
  \<^verbatim>\<open>todos[idx]\<close> is read only by a condition whose filter is switched on.
\<close>

definition status_rejects :: "c_int \<Rightarrow> state \<Rightarrow> bool option" where
  "status_rejects idx s =
     (if filter_done s \<noteq> - 1
      then do { t \<leftarrow> todo_at (todos s) idx; Some (t_done t \<noteq> filter_done s) }
      else Some False)"

definition category_rejects :: "c_int \<Rightarrow> state \<Rightarrow> bool option" where
  "category_rejects idx s =
     (if filter_category s ! 0 \<noteq> NUL
      then do {
        t \<leftarrow> todo_at (todos s) idx;
        r \<leftarrow> strcasecmp (t_category t) (filter_category s);
        Some (r \<noteq> 0)
      }
      else Some False)"

definition search_rejects :: "c_int \<Rightarrow> state \<Rightarrow> bool option" where
  "search_rejects idx s =
     (if search_term s ! 0 \<noteq> NUL
      then do {
        t \<leftarrow> todo_at (todos s) idx;
        p \<leftarrow> strcasestr (t_text t) (search_term s);
        if p = None
        then do { q \<leftarrow> strcasestr (t_category t) (search_term s); Some (q = None) }
        else Some False
      }
      else Some False)"

definition todo_matches_filter :: "c_int \<Rightarrow> state \<Rightarrow> c_int option" where
  "todo_matches_filter idx s = do {
     r1 \<leftarrow> status_rejects idx s;
     if r1 then Some 0
     else do {
       r2 \<leftarrow> category_rejects idx s;
       if r2 then Some 0
       else do {
         r3 \<leftarrow> search_rejects idx s;
         if r3 then Some 0 else Some 1
       }
     }
   }"

text \<open>
  The predicate as the specification words it: three criteria, each of which holds
  when its filter is off.
\<close>

definition ci_equal :: "string \<Rightarrow> string \<Rightarrow> bool" where
  "ci_equal a b \<longleftrightarrow> map tolower a = map tolower b"

definition ci_substring :: "string \<Rightarrow> string \<Rightarrow> bool" where
  "ci_substring term s \<longleftrightarrow> sublist (map tolower term) (map tolower s)"

definition visible_spec :: "Todo \<Rightarrow> state \<Rightarrow> bool" where
  "visible_spec t s \<longleftrightarrow>
     (filter_done s \<noteq> - 1 \<longrightarrow> t_done t = filter_done s) \<and>
     (str (filter_category s) \<noteq> [] \<longrightarrow> ci_equal (str (t_category t)) (str (filter_category s))) \<and>
     (str (search_term s) \<noteq> [] \<longrightarrow>
        ci_substring (str (search_term s)) (str (t_text t)) \<or>
        ci_substring (str (search_term s)) (str (t_category t)))"


text \<open>
  What \<^verbatim>\<open>draw_screen\<close> shows: the indices below \<^verbatim>\<open>todo_count\<close>, in order, at which the
  predicate returns non-zero.
\<close>

definition shown :: "state \<Rightarrow> nat \<Rightarrow> bool" where
  "shown s i = (case todo_matches_filter (of_nat i) s of None \<Rightarrow> False | Some r \<Rightarrow> r \<noteq> 0)"

definition visible :: "state \<Rightarrow> nat list" where
  "visible s = filter (shown s) [0..<nat (sint (todo_count s))]"

subsection \<open>Mutating operations\<close>

definition add_todo :: "string \<Rightarrow> state \<Rightarrow> state option" where
  "add_todo line s = do {
     new_todo \<leftarrow> getstr local_buf line;
     if new_todo ! 0 \<noteq> NUL \<and> todo_count s <s MAX_TODOS
     then do {
       t \<leftarrow> todo_at (todos s) (todo_count s);
       txt \<leftarrow> strncpy (t_text t) new_todo (MAX_LENGTH - 1);
       ts \<leftarrow> todo_put (todos s) (todo_count s)
               (t\<lparr>t_text := txt, t_category := (t_category t)[0 := NUL],
                  t_due_date := 0, t_done := 0\<rparr>);
       Some (s\<lparr>todos := ts, todo_count := todo_count s + 1,
               selected := (todo_count s + 1) - 1\<rparr>)
     }
     else Some s
   }"

text \<open>
  The loop of \<^verbatim>\<open>delete_todo\<close>: \<^verbatim>\<open>for (i = idx; i < todo_count - 1; i++) todos[i] = todos[i + 1]\<close>.
\<close>

function delete_loop :: "c_int \<Rightarrow> c_int \<Rightarrow> Todo list \<Rightarrow> Todo list option" where
  "delete_loop i cnt ts =
     (if i <s cnt - 1
      then do {
        t \<leftarrow> todo_at ts (i + 1);
        ts' \<leftarrow> todo_put ts i t;
        delete_loop (i + 1) cnt ts'
      }
      else Some ts)"
  by pat_completeness auto
termination
proof (relation "measure (\<lambda>(i, cnt, ts). nat (sint (cnt - 1) - sint i))")
  show "wf (measure (\<lambda>(i, cnt, ts). nat (sint (cnt - 1) - sint i)))"
    by simp
next
  fix i cnt :: c_int and ts :: "Todo list" and x xa
  assume less: "i <s cnt - 1"
  have "sint (cnt - 1) < 2 ^ 31"
    using sint_lt [of "cnt - 1"] by simp
  moreover have "- (2 ^ 31) \<le> sint i"
    using sint_ge [of i] by simp
  moreover have "sint i < sint (cnt - 1)"
    using less by (simp add: word_sless_alt)
  ultimately have "sint (i + 1) = sint i + 1"
    by (simp add: sint_word_ariths signed_take_bit_int_eq_self)
  then show "((i + 1, cnt, xa), (i, cnt, ts)) \<in> measure (\<lambda>(i, cnt, ts). nat (sint (cnt - 1) - sint i))"
    using \<open>sint i < sint (cnt - 1)\<close> by simp
qed

declare delete_loop.simps [simp del]

definition delete_todo :: "c_int \<Rightarrow> state \<Rightarrow> state option" where
  "delete_todo idx s = do {
     ts \<leftarrow> delete_loop idx (todo_count s) (todos s);
     let cnt = todo_count s - 1;
     Some (s\<lparr>todos := ts, todo_count := cnt,
             selected := (if cnt \<le>s selected s \<and> 0 <s selected s
                          then selected s - 1 else selected s)\<rparr>)
   }"

definition toggle_todo :: "c_int \<Rightarrow> state \<Rightarrow> state option" where
  "toggle_todo idx s = do {
     t \<leftarrow> todo_at (todos s) idx;
     ts \<leftarrow> todo_put (todos s) idx (t\<lparr>t_done := (if t_done t = 0 then 1 else 0)\<rparr>);
     Some (s\<lparr>todos := ts\<rparr>)
   }"

definition edit_todo :: "string \<Rightarrow> c_int \<Rightarrow> state \<Rightarrow> state option" where
  "edit_todo line idx s = do {
     edit \<leftarrow> getstr local_buf line;
     if edit ! 0 \<noteq> NUL
     then do {
       t \<leftarrow> todo_at (todos s) idx;
       txt \<leftarrow> strncpy (t_text t) edit (MAX_LENGTH - 1);
       ts \<leftarrow> todo_put (todos s) idx (t\<lparr>t_text := txt\<rparr>);
       Some (s\<lparr>todos := ts\<rparr>)
     }
     else Some s
   }"

definition set_category :: "string \<Rightarrow> c_int \<Rightarrow> state \<Rightarrow> state option" where
  "set_category line idx s = do {
     category \<leftarrow> getstr local_buf line;
     t \<leftarrow> todo_at (todos s) idx;
     cat \<leftarrow> strncpy (t_category t) category (MAX_LENGTH - 1);
     ts \<leftarrow> todo_put (todos s) idx (t\<lparr>t_category := cat\<rparr>);
     Some (s\<lparr>todos := ts\<rparr>)
   }"

subsection \<open>Due dates\<close>

text \<open>
  \<^verbatim>\<open>sscanf(date_str, "%d-%d-%d", ...)\<close>. A \<^verbatim>\<open>%d\<close> skips white space, takes an optional sign
  and then at least one decimal digit; the \<^verbatim>\<open>-\<close> of the format must be the next byte of
  the input. The program only asks whether the call returns 3, so the model returns
  the three numbers when it does and \<open>None\<close> (a result other than 3) when it does not.
  glibc converts with \<^verbatim>\<open>strtol\<close>, which saturates at the range of \<^verbatim>\<open>long\<close>, and stores
  the low 32 bits.
\<close>

definition isspace :: "char \<Rightarrow> bool" where
  "isspace c \<longleftrightarrow> c \<in> {CHR '' '', CHR 0x09, CHR 0x0A, CHR 0x0B, CHR 0x0C, CHR 0x0D}"

definition isdigit :: "char \<Rightarrow> bool" where
  "isdigit c \<longleftrightarrow> 48 \<le> (of_char c :: nat) \<and> (of_char c :: nat) \<le> 57"

definition digits_val :: "string \<Rightarrow> int" where
  "digits_val ds = foldl (\<lambda>v c. 10 * v + (int (of_char c) - 48)) 0 ds"

definition strtol_int :: "int \<Rightarrow> c_int" where
  "strtol_int v = word_of_int (max (- (2 ^ 63)) (min (2 ^ 63 - 1) v))"

definition scan_d :: "string \<Rightarrow> (c_int \<times> string) option" where
  "scan_d inp =
     (let s1 = dropWhile isspace inp;
          neg = (s1 \<noteq> [] \<and> hd s1 = CHR ''-'');
          s2 = (if s1 \<noteq> [] \<and> (hd s1 = CHR ''-'' \<or> hd s1 = CHR ''+'') then tl s1 else s1);
          ds = takeWhile isdigit s2
      in if ds = [] then None
         else Some (strtol_int (if neg then - digits_val ds else digits_val ds),
                    dropWhile isdigit s2))"

definition scan_lit :: "char \<Rightarrow> string \<Rightarrow> string option" where
  "scan_lit c inp = (case inp of [] \<Rightarrow> None | x # r \<Rightarrow> if x = c then Some r else None)"

definition sscanf_ymd :: "string \<Rightarrow> (c_int \<times> c_int \<times> c_int) option" where
  "sscanf_ymd inp = do {
     (y, r1) \<leftarrow> scan_d inp;
     r2 \<leftarrow> scan_lit CHR ''-'' r1;
     (m, r3) \<leftarrow> scan_d r2;
     r4 \<leftarrow> scan_lit CHR ''-'' r3;
     (d, r5) \<leftarrow> scan_d r4;
     Some (y, m, d)
   }"

record tm =
  tm_sec :: c_int
  tm_min :: c_int
  tm_hour :: c_int
  tm_mday :: c_int
  tm_mon :: c_int
  tm_year :: c_int
  tm_wday :: c_int
  tm_yday :: c_int
  tm_isdst :: c_int

definition zero_tm :: tm where
  "zero_tm = \<lparr>tm_sec = 0, tm_min = 0, tm_hour = 0, tm_mday = 0, tm_mon = 0, tm_year = 0,
     tm_wday = 0, tm_yday = 0, tm_isdst = 0\<rparr>"

text \<open>
  \<^verbatim>\<open>mktime\<close> depends on the time zone of the process: it is a parameter of the model.
  The subtractions \<^verbatim>\<open>tm_year -= 1900\<close> and \<^verbatim>\<open>tm_mon -= 1\<close> are those of a 32-bit
  register: at the lower end of the range of \<^verbatim>\<open>int\<close> they wrap around.
\<close>

definition set_due_date :: "(tm \<Rightarrow> time_t) \<Rightarrow> string \<Rightarrow> c_int \<Rightarrow> state \<Rightarrow> state option" where
  "set_due_date mktime line idx s = do {
     date_str \<leftarrow> getstr local_buf line;
     if date_str ! 0 = NUL
     then do {
       t \<leftarrow> todo_at (todos s) idx;
       ts \<leftarrow> todo_put (todos s) idx (t\<lparr>t_due_date := 0\<rparr>);
       Some (s\<lparr>todos := ts\<rparr>)
     }
     else do {
       inp \<leftarrow> cstr date_str;
       case sscanf_ymd inp of
         None \<Rightarrow> Some s
       | Some (y, m, d) \<Rightarrow> do {
           let tm_date = zero_tm\<lparr>tm_year := y, tm_mon := m, tm_mday := d\<rparr>;
           let tm_date = tm_date\<lparr>tm_year := tm_year tm_date - 1900\<rparr>;
           let tm_date = tm_date\<lparr>tm_mon := tm_mon tm_date - 1\<rparr>;
           t \<leftarrow> todo_at (todos s) idx;
           ts \<leftarrow> todo_put (todos s) idx (t\<lparr>t_due_date := mktime tm_date\<rparr>);
           Some (s\<lparr>todos := ts\<rparr>)
         }
     }
   }"

text \<open>
  The date format as the specification words it, without reference to \<^verbatim>\<open>sscanf\<close>: a line
  holds three numeric components when it is made of a number, a \<open>-\<close>, a number, a \<open>-\<close>
  and a number, where a number is an optional sign and one or more decimal digits, may
  have white space before it, and has the value of its digits in base ten. The digits
  of the third number go as far as there are digits; what follows them is not looked
  at.
\<close>

definition blank :: "string \<Rightarrow> bool" where
  "blank w \<longleftrightarrow> list_all isspace w"

definition decimal :: "string \<Rightarrow> int" where
  "decimal ds = (\<Sum>i<length ds. (int (of_char (ds ! i)) - 48) * 10 ^ (length ds - Suc i))"

definition number :: "string \<Rightarrow> int \<Rightarrow> bool" where
  "number n v \<longleftrightarrow>
     (\<exists>ds. ds \<noteq> [] \<and> list_all isdigit ds \<and>
        (n = ds \<and> v = decimal ds \<or>
         n = CHR ''+'' # ds \<and> v = decimal ds \<or>
         n = CHR ''-'' # ds \<and> v = - decimal ds))"

definition no_digit_next :: "string \<Rightarrow> bool" where
  "no_digit_next r \<longleftrightarrow> (case r of [] \<Rightarrow> True | c # _ \<Rightarrow> \<not> isdigit c)"

definition three_components :: "string \<Rightarrow> int \<Rightarrow> int \<Rightarrow> int \<Rightarrow> bool" where
  "three_components line y m d \<longleftrightarrow>
     (\<exists>w1 n1 w2 n2 w3 n3 rest.
        line = w1 @ n1 @ CHR ''-'' # w2 @ n2 @ CHR ''-'' # w3 @ n3 @ rest \<and>
        blank w1 \<and> number n1 y \<and> blank w2 \<and> number n2 m \<and> blank w3 \<and> number n3 d \<and>
        no_digit_next rest)"

subsection \<open>Filter operations\<close>

definition filter_by_category :: "string \<Rightarrow> state \<Rightarrow> state option" where
  "filter_by_category line s = do {
     fc \<leftarrow> getstr (filter_category s) line;
     Some (s\<lparr>filter_category := fc, selected := 0\<rparr>)
   }"

text \<open>The operator \<^verbatim>\<open>%\<close> of C on \<^verbatim>\<open>int\<close>: the remainder of the division that truncates.\<close>

definition c_rem :: "c_int \<Rightarrow> c_int \<Rightarrow> c_int" where
  "c_rem a b = word_of_int (sint a smod sint b)"

definition filter_by_status :: "state \<Rightarrow> state" where
  "filter_by_status s = s\<lparr>filter_done := c_rem (filter_done s + 1) 3 - 1, selected := 0\<rparr>"

definition search_todos :: "string \<Rightarrow> state \<Rightarrow> state option" where
  "search_todos line s = do {
     st \<leftarrow> getstr (search_term s) line;
     Some (s\<lparr>search_term := st, selected := 0\<rparr>)
   }"

text \<open>The three assignments of \<^verbatim>\<open>case 'r'\<close> in \<^verbatim>\<open>main\<close>.\<close>

definition reset_filters :: "state \<Rightarrow> state" where
  "reset_filters s = s\<lparr>filter_category := (filter_category s)[0 := NUL], filter_done := - 1,
     search_term := (search_term s)[0 := NUL]\<rparr>"


subsection \<open>Persistence\<close>

text \<open>
  The file is a sequence of bytes; a file that does not exist (or cannot be opened)
  is \<open>None\<close>. \<^verbatim>\<open>fwrite\<close> and \<^verbatim>\<open>fread\<close> copy the memory of the objects as it is, so the
  format is the layout of the target. The model fixes Linux on x86-64: little-endian,
  \<^verbatim>\<open>sizeof(int) = 4\<close>, \<^verbatim>\<open>sizeof(time_t) = 8\<close>, and a \<^verbatim>\<open>Todo\<close> of 272 bytes: the two buffers,
  the time stamp, the flag and four bytes of padding, which are written and read as
  they are in memory.
\<close>

type_synonym data_file = "string option"

fun le_bytes :: "nat \<Rightarrow> nat \<Rightarrow> string" where
  "le_bytes 0 v = []"
| "le_bytes (Suc k) v = char_of v # le_bytes k (v div 256)"

fun le_val :: "string \<Rightarrow> nat" where
  "le_val [] = 0"
| "le_val (b # bs) = of_char b + 256 * le_val bs"

definition encode_int :: "c_int \<Rightarrow> string" where
  "encode_int w = le_bytes 4 (unat w)"

definition decode_int :: "string \<Rightarrow> c_int" where
  "decode_int bs = of_nat (le_val (take 4 bs))"

definition sizeof_Todo :: nat where
  "sizeof_Todo = MAX_LENGTH + MAX_LENGTH + 8 + 4 + 4"

definition encode_todo :: "Todo \<Rightarrow> string" where
  "encode_todo t =
     t_text t @ t_category t @ le_bytes 8 (unat (t_due_date t)) @ le_bytes 4 (unat (t_done t))
       @ le_bytes 4 (unat (t_padding t))"

definition decode_todo :: "string \<Rightarrow> Todo" where
  "decode_todo bs =
     \<lparr>t_text = take MAX_LENGTH bs,
      t_category = take MAX_LENGTH (drop MAX_LENGTH bs),
      t_due_date = of_nat (le_val (take 8 (drop (MAX_LENGTH + MAX_LENGTH) bs))),
      t_done = of_nat (le_val (take 4 (drop (MAX_LENGTH + MAX_LENGTH + 8) bs))),
      t_padding = of_nat (le_val (take 4 (drop (MAX_LENGTH + MAX_LENGTH + 8 + 4) bs)))\<rparr>"

text \<open>
  \<^verbatim>\<open>fread\<close> copies the bytes it gets over the start of the object it is given. When the
  file ends inside an element, glibc has already stored the bytes before the end.
\<close>

definition overlay :: "string \<Rightarrow> string \<Rightarrow> string" where
  "overlay bytes mem = bytes @ drop (length bytes) mem"

text \<open>
  The bytes read for the array, laid over its elements one by one. Bytes left when the
  array is full would be written behind it.
\<close>

fun fread_todos :: "string \<Rightarrow> Todo list \<Rightarrow> Todo list option" where
  "fread_todos [] ts = Some ts"
| "fread_todos (b # bs) [] = None"
| "fread_todos (b # bs) (t # ts) =
     map_option (Cons (decode_todo (overlay (take sizeof_Todo (b # bs)) (encode_todo t))))
       (fread_todos (drop sizeof_Todo (b # bs)) ts)"

text \<open>
  \<^verbatim>\<open>fwrite(todos, sizeof(Todo), todo_count, file)\<close> reads \<^verbatim>\<open>todo_count\<close> elements of the
  array: the count must lie within it.
\<close>

definition save_todos :: "bool \<Rightarrow> state \<Rightarrow> data_file \<Rightarrow> data_file option" where
  "save_todos fopen_ok s old =
     (if fopen_ok
      then if 0 \<le>s todo_count s \<and> nat (sint (todo_count s)) \<le> length (todos s)
           then Some (Some (encode_int (todo_count s) @
                  concat (map encode_todo (take (nat (sint (todo_count s))) (todos s)))))
           else None
      else Some old)"

text \<open>
  \<^verbatim>\<open>fread(todos, sizeof(Todo), todo_count, file)\<close> asks for \<^verbatim>\<open>sizeof(Todo) * todo_count\<close>
  bytes, the product taken in \<^verbatim>\<open>size_t\<close>, and gets as many of them as the file has left.
  Neither return value is looked at.
\<close>

definition load_todos :: "data_file \<Rightarrow> state \<Rightarrow> state option" where
  "load_todos f s =
     (case f of
        None \<Rightarrow> Some s
      | Some bytes \<Rightarrow> do {
          let cnt = decode_int (overlay (take 4 bytes) (encode_int (todo_count s)));
          let requested = unat (of_nat sizeof_Todo * (scast cnt :: 64 word));
          ts \<leftarrow> fread_todos (take requested (drop 4 bytes)) (todos s);
          Some (s\<lparr>todo_count := cnt, todos := ts\<rparr>)
        })"

subsection \<open>The key loop of main\<close>

text \<open>
  A key is the \<^verbatim>\<open>int\<close> that \<^verbatim>\<open>getch\<close> returns: the code of a character, or one of the
  constants of \<^verbatim>\<open>ncurses.h\<close> (\<^verbatim>\<open>KEY_DOWN\<close> is 0402 and \<^verbatim>\<open>KEY_UP\<close> is 0403, in octal). An
  event is a key together with the line the user types if the operation prompts.
\<close>

definition key :: "char \<Rightarrow> c_int" where
  "key c = of_nat (of_char c)"

definition KEY_DOWN :: c_int where
  "KEY_DOWN = 258"

definition KEY_UP :: c_int where
  "KEY_UP = 259"

definition dispatch :: "(tm \<Rightarrow> time_t) \<Rightarrow> c_int \<Rightarrow> string \<Rightarrow> state \<Rightarrow> state option" where
  "dispatch mktime ch line s =
     (if ch = key CHR ''j'' \<or> ch = KEY_DOWN then
        Some (if selected s <s todo_count s - 1 then s\<lparr>selected := selected s + 1\<rparr> else s)
      else if ch = key CHR ''k'' \<or> ch = KEY_UP then
        Some (if 0 <s selected s then s\<lparr>selected := selected s - 1\<rparr> else s)
      else if ch = key CHR ''a'' then add_todo line s
      else if ch = key CHR ''d'' then
        (if 0 <s todo_count s then delete_todo (selected s) s else Some s)
      else if ch = key CHR '' '' then
        (if 0 <s todo_count s then toggle_todo (selected s) s else Some s)
      else if ch = key CHR ''e'' then
        (if 0 <s todo_count s then edit_todo line (selected s) s else Some s)
      else if ch = key CHR ''D'' then
        (if 0 <s todo_count s then set_due_date mktime line (selected s) s else Some s)
      else if ch = key CHR ''c'' then
        (if 0 <s todo_count s then set_category line (selected s) s else Some s)
      else if ch = key CHR ''C'' then filter_by_category line s
      else if ch = key CHR ''f'' then Some (filter_by_status s)
      else if ch = key CHR ''/'' then search_todos line s
      else if ch = key CHR ''r'' then Some (reset_filters s)
      else Some s)"

text \<open>\<^verbatim>\<open>while ((ch = getch()) != 'q') { switch ... }\<close> over the events to come.\<close>

fun run :: "(tm \<Rightarrow> time_t) \<Rightarrow> (c_int \<times> string) list \<Rightarrow> state \<Rightarrow> state option" where
  "run mktime [] s = Some s"
| "run mktime ((ch, line) # evs) s =
     (if ch = key CHR ''q'' then Some s
      else do { s' \<leftarrow> dispatch mktime ch line s; run mktime evs s' })"

subsection \<open>Well-formed states\<close>

text \<open>
  A buffer has \<^verbatim>\<open>MAX_LENGTH\<close> bytes. Every write of the program leaves the last byte of
  a buffer alone or stores NUL there, so in a state reached from the initial one every
  buffer ends with NUL and holds a string.
\<close>

definition buf_ok :: "string \<Rightarrow> bool" where
  "buf_ok b \<longleftrightarrow> length b = MAX_LENGTH \<and> last b = NUL"

definition todo_ok :: "Todo \<Rightarrow> bool" where
  "todo_ok t \<longleftrightarrow> buf_ok (t_text t) \<and> buf_ok (t_category t)"

definition state_ok :: "state \<Rightarrow> bool" where
  "state_ok s \<longleftrightarrow>
     length (todos s) = MAX_TODOS \<and> list_all todo_ok (todos s) \<and>
     buf_ok (filter_category s) \<and> buf_ok (search_term s) \<and>
     0 \<le>s todo_count s \<and> todo_count s \<le>s MAX_TODOS"

text \<open>The invariant of the cursor: an index of a record whenever there is a record.\<close>

definition selection_ok :: "state \<Rightarrow> bool" where
  "selection_ok s \<longleftrightarrow>
     (0 <s todo_count s \<longrightarrow> 0 \<le>s selected s \<and> selected s <s todo_count s)"

text \<open>The sizes alone, which is what the file format depends on.\<close>

definition todo_sized :: "Todo \<Rightarrow> bool" where
  "todo_sized t \<longleftrightarrow> length (t_text t) = MAX_LENGTH \<and> length (t_category t) = MAX_LENGTH"

definition store_sized :: "state \<Rightarrow> bool" where
  "store_sized s \<longleftrightarrow>
     length (todos s) = MAX_TODOS \<and> list_all todo_sized (todos s) \<and>
     0 \<le>s todo_count s \<and> todo_count s \<le>s MAX_TODOS"

subsection \<open>Example data\<close>

text \<open>The buffer of a zeroed object after the string \<open>x\<close> was copied into it.\<close>

definition buf_of :: "string \<Rightarrow> string" where
  "buf_of x = x @ replicate (MAX_LENGTH - length x) NUL"

text \<open>A store with one record, and the same store under filters that the record passes.\<close>

definition ex_todo :: Todo where
  "ex_todo = \<lparr>t_text = buf_of ''Buy milk'', t_category = buf_of ''Family'',
     t_due_date = 0, t_done = 0, t_padding = 0\<rparr>"

definition ex_store :: state where
  "ex_store = init_state\<lparr>todos := (todos init_state)[0 := ex_todo], todo_count := 1\<rparr>"

definition ex_state :: state where
  "ex_state = ex_store\<lparr>filter_category := buf_of ''FAMILY'', filter_done := 0,
     search_term := buf_of ''mil''\<rparr>"

text \<open>A store with two records and the cursor on the second; a store that is full.\<close>

definition ex_todo2 :: Todo where
  "ex_todo2 = \<lparr>t_text = buf_of ''Call Bob'', t_category = buf_of [],
     t_due_date = 0, t_done = 1, t_padding = 0\<rparr>"

definition ex_two :: state where
  "ex_two = init_state\<lparr>todos := (todos init_state)[0 := ex_todo, 1 := ex_todo2],
     todo_count := 2, selected := 1\<rparr>"

definition ex_full :: state where
  "ex_full = init_state\<lparr>todo_count := MAX_TODOS\<rparr>"

text \<open>The same store with a due date on its record.\<close>

definition ex_dated :: state where
  "ex_dated = init_state\<lparr>todos := (todos init_state)[0 := ex_todo\<lparr>t_due_date := 86400\<rparr>],
     todo_count := 1\<rparr>"

text \<open>A line of 200 bytes: more than an input buffer of \<^verbatim>\<open>MAX_LENGTH\<close> bytes holds.\<close>

definition long_line :: string where
  "long_line = replicate 200 CHR ''a''"

text \<open>A file cut off behind its header: it announces two records and holds none.\<close>

definition trunc_file :: string where
  "trunc_file = [CHR 0x02, NUL, NUL, NUL]"

text \<open>A stand-in for \<^verbatim>\<open>mktime\<close> in examples: days of the month as seconds.\<close>

definition ex_mktime :: "tm \<Rightarrow> time_t" where
  "ex_mktime t = scast (tm_mday t)"

section \<open>Properties\<close>

subsection \<open>Strings without case\<close>

lemma of_char_tolower:
  "(of_char (tolower c) :: nat) =
     (if 65 \<le> (of_char c :: nat) \<and> (of_char c :: nat) \<le> 90 then of_char c + 32 else of_char c)"
  by (simp add: tolower_def)

lemma tolower_NUL_iff: "tolower c = NUL \<longleftrightarrow> c = NUL"
proof -
  have "tolower c = NUL \<longleftrightarrow> (of_char (tolower c) :: nat) = of_char NUL"
    by (simp only: of_char_eq_iff)
  also have "\<dots> \<longleftrightarrow> (of_char c :: nat) = of_char NUL"
    by (simp add: of_char_tolower)
  also have "\<dots> \<longleftrightarrow> c = NUL"
    by (simp only: of_char_eq_iff)
  finally show ?thesis .
qed

lemma tolower_NUL: "tolower NUL = NUL"
  by (simp add: tolower_NUL_iff)

lemma tolower_eq_NUL:
  "tolower a = tolower NUL \<longleftrightarrow> a = NUL" "tolower NUL = tolower a \<longleftrightarrow> a = NUL"
  using tolower_NUL_iff [of a] by (auto simp: tolower_NUL)

lemma head_str: "b \<noteq> [] \<Longrightarrow> (b ! 0 \<noteq> NUL) = (str b \<noteq> [])"
  by (cases b) (auto simp: str_def)

lemma strcasecmp_terminated:
  "NUL \<in> set a \<Longrightarrow> NUL \<in> set b \<Longrightarrow>
   \<exists>r. strcasecmp a b = Some r \<and> (r = 0 \<longleftrightarrow> ci_equal (str a) (str b))"
proof (induction a b rule: strcasecmp.induct)
  case (1 a as b bs)
  show ?case
  proof (cases "tolower a = tolower b")
    case False
    then show ?thesis by (auto simp: str_def Let_def tolower_eq_NUL ci_equal_def)
  next
    case True
    then show ?thesis using 1 by (auto simp: str_def Let_def tolower_eq_NUL ci_equal_def)
  qed
qed simp_all

lemma starts_with_ci_prefix: "starts_with_ci h n \<longleftrightarrow> prefix (map tolower n) (map tolower h)"
  by (induction h n rule: starts_with_ci.induct) auto

lemma find_ci_None: "find_ci h n = None \<longleftrightarrow> \<not> ci_substring n h"
  unfolding ci_substring_def
  by (induction h n rule: find_ci.induct) (auto simp: starts_with_ci_prefix sublist_Cons_right)

lemma strcasestr_terminated:
  "NUL \<in> set h \<Longrightarrow> NUL \<in> set n \<Longrightarrow>
   \<exists>p. strcasestr h n = Some p \<and> (p = None \<longleftrightarrow> \<not> ci_substring (str n) (str h))"
  by (simp add: strcasestr_def cstr_def find_ci_None)

lemma status_rejects_eq:
  "in_array (todos s) idx \<Longrightarrow>
   status_rejects idx s =
     Some (\<not> (filter_done s \<noteq> - 1 \<longrightarrow> t_done (todos s ! nat (sint idx)) = filter_done s))"
  by (simp add: status_rejects_def todo_at_def)

lemma category_rejects_eq:
  assumes "in_array (todos s) idx"
    and "NUL \<in> set (t_category (todos s ! nat (sint idx)))"
    and "NUL \<in> set (filter_category s)"
  shows "category_rejects idx s =
     Some (\<not> (str (filter_category s) \<noteq> [] \<longrightarrow>
        ci_equal (str (t_category (todos s ! nat (sint idx)))) (str (filter_category s))))"
proof -
  from assms(3) have ne: "filter_category s \<noteq> []" by auto
  obtain r where r: "strcasecmp (t_category (todos s ! nat (sint idx))) (filter_category s) = Some r"
    "r = 0 \<longleftrightarrow> ci_equal (str (t_category (todos s ! nat (sint idx)))) (str (filter_category s))"
    using strcasecmp_terminated [OF assms(2,3)] by blast
  show ?thesis
    using assms(1) r by (simp add: category_rejects_def todo_at_def head_str [OF ne])
qed

lemma search_rejects_eq:
  assumes "in_array (todos s) idx"
    and "NUL \<in> set (t_text (todos s ! nat (sint idx)))"
    and "NUL \<in> set (t_category (todos s ! nat (sint idx)))"
    and "NUL \<in> set (search_term s)"
  shows "search_rejects idx s =
     Some (\<not> (str (search_term s) \<noteq> [] \<longrightarrow>
        ci_substring (str (search_term s)) (str (t_text (todos s ! nat (sint idx)))) \<or>
        ci_substring (str (search_term s)) (str (t_category (todos s ! nat (sint idx))))))"
proof -
  from assms(4) have ne: "search_term s \<noteq> []" by auto
  obtain p where p: "strcasestr (t_text (todos s ! nat (sint idx))) (search_term s) = Some p"
    "p = None \<longleftrightarrow> \<not> ci_substring (str (search_term s)) (str (t_text (todos s ! nat (sint idx))))"
    using strcasestr_terminated [OF assms(2,4)] by blast
  obtain q where q: "strcasestr (t_category (todos s ! nat (sint idx))) (search_term s) = Some q"
    "q = None \<longleftrightarrow> \<not> ci_substring (str (search_term s)) (str (t_category (todos s ! nat (sint idx))))"
    using strcasestr_terminated [OF assms(3,4)] by blast
  show ?thesis
    using assms(1) p q by (simp add: search_rejects_def todo_at_def head_str [OF ne])
qed

text \<open>
  Claim C1. For every record and every filter state, \<^verbatim>\<open>todo_matches_filter\<close> returns
  true (1) if and only if all three criteria hold: with a completion filter other than
  "all" the \<^verbatim>\<open>done\<close> flag equals the value of the filter; with a non-empty category
  filter the category of the record equals the filter string in full, ignoring case;
  with a non-empty search term the term occurs, ignoring case, as a substring of the
  text or of the category. The record is one of the array and the four buffers read
  hold strings.
\<close>

theorem todo_matches_filter_iff:
  assumes "in_array (todos s) idx"
    and "NUL \<in> set (t_text (todos s ! nat (sint idx)))"
    and "NUL \<in> set (t_category (todos s ! nat (sint idx)))"
    and "NUL \<in> set (filter_category s)"
    and "NUL \<in> set (search_term s)"
  shows "todo_matches_filter idx s =
     Some (if visible_spec (todos s ! nat (sint idx)) s then 1 else 0)"
  unfolding todo_matches_filter_def
  by (simp add: status_rejects_eq [OF assms(1)] category_rejects_eq [OF assms(1,3,4)]
      search_rejects_eq [OF assms(1,2,3,5)] visible_spec_def)


theorem todo_matches_filter_iff_witness:
  "in_array (todos ex_state) 0 \<and>
   NUL \<in> set (t_text (todos ex_state ! nat (sint (0::c_int)))) \<and>
   NUL \<in> set (t_category (todos ex_state ! nat (sint (0::c_int)))) \<and>
   NUL \<in> set (filter_category ex_state) \<and>
   NUL \<in> set (search_term ex_state) \<and>
   todo_matches_filter 0 ex_state = Some 1 \<and>
   visible_spec (todos ex_state ! nat (sint (0::c_int))) ex_state"
proof -
  have a: "in_array (todos ex_state) 0"
    by (simp add: in_array_def ex_state_def ex_store_def init_state_def)
  have b: "NUL \<in> set (t_text (todos ex_state ! nat (sint (0::c_int))))"
    by (simp add: ex_state_def ex_store_def init_state_def ex_todo_def buf_of_def)
  have c: "NUL \<in> set (t_category (todos ex_state ! nat (sint (0::c_int))))"
    by (simp add: ex_state_def ex_store_def init_state_def ex_todo_def buf_of_def)
  have d: "NUL \<in> set (filter_category ex_state)"
    by (simp add: ex_state_def init_state_def buf_of_def)
  have e: "NUL \<in> set (search_term ex_state)"
    by (simp add: ex_state_def init_state_def buf_of_def)
  have f: "todo_matches_filter 0 ex_state = Some 1"
    by code_simp
  from todo_matches_filter_iff [OF a b c d e] f
  have "visible_spec (todos ex_state ! nat (sint (0::c_int))) ex_state"
    by (simp split: if_splits)
  with a b c d e f show ?thesis by blast
qed

text \<open>
  The examples of the specification: a category filter \<open>Work\<close> matches the categories
  \<open>work\<close> and \<open>WORK\<close> and not \<open>Work2\<close>; a search for \<open>mil\<close> finds the text \<open>Milk\<close> and
  the category \<open>Family\<close>.
\<close>

lemma category_examples:
  "strcasecmp (buf_of ''work'') (buf_of ''Work'') = Some 0"
  "strcasecmp (buf_of ''WORK'') (buf_of ''Work'') = Some 0"
  "strcasecmp (buf_of ''Work2'') (buf_of ''Work'') = Some 50"
  by code_simp+

lemma search_examples:
  "strcasestr (buf_of ''Milk'') (buf_of ''mil'') = Some (Some 0)"
  "strcasestr (buf_of ''Family'') (buf_of ''mil'') = Some (Some 2)"
  "strcasestr (buf_of ''Call Bob'') (buf_of ''mil'') = Some None"
  by code_simp+

text \<open>
  The session of the specification: two records added, the first one categorised, then
  a category filter in another case: only the first record is shown.
\<close>

lemma session_example:
  "do {
     s1 \<leftarrow> add_todo ''Buy milk'' init_state;
     s2 \<leftarrow> add_todo ''Call Bob'' s1;
     s3 \<leftarrow> set_category ''Errands'' 0 s2;
     s4 \<leftarrow> filter_by_category ''errands'' s3;
     Some (visible s4, map (\<lambda>t. str (t_text t)) (take 2 (todos s4)))
   } = Some ([0], [''Buy milk'', ''Call Bob''])"
  by code_simp

lemma dispatch_filter_keys:
  "dispatch mktime (key CHR ''C'') line s = filter_by_category line s"
  "dispatch mktime (key CHR ''f'') line s = Some (filter_by_status s)"
  "dispatch mktime (key CHR ''/'') line s = search_todos line s"
  "dispatch mktime (key CHR ''r'') line s = Some (reset_filters s)"
  by (simp_all add: dispatch_def key_def KEY_DOWN_def KEY_UP_def)

lemma str_clear: "b \<noteq> [] \<Longrightarrow> str (b[0 := NUL]) = []"
  by (cases b) (simp_all add: str_def)

subsection \<open>Adding a criterion\<close>

lemma matches_filter_cases:
  "todo_matches_filter idx s =
     (case status_rejects idx s of None \<Rightarrow> None
      | Some r1 \<Rightarrow> if r1 then Some 0 else
         (case category_rejects idx s of None \<Rightarrow> None
          | Some r2 \<Rightarrow> if r2 then Some 0 else
             (case search_rejects idx s of None \<Rightarrow> None
              | Some r3 \<Rightarrow> if r3 then Some 0 else Some 1)))"
  by (simp add: todo_matches_filter_def split: option.split)

lemma matches_one:
  "todo_matches_filter idx s = Some 1 \<longleftrightarrow>
   status_rejects idx s = Some False \<and> category_rejects idx s = Some False \<and>
   search_rejects idx s = Some False"
  by (simp add: matches_filter_cases split: option.split)

lemma matches_01: "todo_matches_filter idx s = Some r \<Longrightarrow> r = 0 \<or> r = 1"
  by (simp add: matches_filter_cases split: option.splits if_splits)

lemma shown_iff: "shown s i \<longleftrightarrow> todo_matches_filter (of_nat i) s = Some 1"
proof (cases "todo_matches_filter (of_nat i) s")
  case None
  then show ?thesis by (simp add: shown_def)
next
  case (Some r)
  with matches_01 [OF Some] show ?thesis by (auto simp: shown_def)
qed

lemma rejects_category_update:
  "status_rejects idx (s\<lparr>filter_category := fc\<rparr>) = status_rejects idx s"
  "search_rejects idx (s\<lparr>filter_category := fc\<rparr>) = search_rejects idx s"
  by (simp_all add: status_rejects_def search_rejects_def cong: if_cong)

lemma rejects_status_update:
  "category_rejects idx (s\<lparr>filter_done := v\<rparr>) = category_rejects idx s"
  "search_rejects idx (s\<lparr>filter_done := v\<rparr>) = search_rejects idx s"
  by (simp_all add: category_rejects_def search_rejects_def cong: if_cong)

lemma rejects_search_update:
  "status_rejects idx (s\<lparr>search_term := st\<rparr>) = status_rejects idx s"
  "category_rejects idx (s\<lparr>search_term := st\<rparr>) = category_rejects idx s"
  by (simp_all add: status_rejects_def category_rejects_def cong: if_cong)

lemma rejects_off:
  "filter_done s = - 1 \<Longrightarrow> status_rejects idx s = Some False"
  "filter_category s ! 0 = NUL \<Longrightarrow> category_rejects idx s = Some False"
  "search_term s ! 0 = NUL \<Longrightarrow> search_rejects idx s = Some False"
  by (simp_all add: status_rejects_def category_rejects_def search_rejects_def)

lemma visible_mono:
  assumes "todo_count s' = todo_count s"
    and "\<And>i. todo_matches_filter i s' = Some 1 \<Longrightarrow> todo_matches_filter i s = Some 1"
  shows "set (visible s') \<subseteq> set (visible s)"
  using assms by (auto simp: visible_def shown_iff)

lemma category_added:
  assumes "filter_category s ! 0 = NUL"
    and "todo_matches_filter idx (s\<lparr>filter_category := fc\<rparr>) = Some 1"
  shows "todo_matches_filter idx s = Some 1"
  using assms by (simp add: matches_one rejects_category_update rejects_off)

lemma status_added:
  assumes "filter_done s = - 1"
    and "todo_matches_filter idx (s\<lparr>filter_done := v\<rparr>) = Some 1"
  shows "todo_matches_filter idx s = Some 1"
  using assms by (simp add: matches_one rejects_status_update rejects_off)

lemma search_added:
  assumes "search_term s ! 0 = NUL"
    and "todo_matches_filter idx (s\<lparr>search_term := st\<rparr>) = Some 1"
  shows "todo_matches_filter idx s = Some 1"
  using assms by (simp add: matches_one rejects_search_update rejects_off)

text \<open>
  Claim C8. The filter predicate is monotonic in the filter state: adding one criterion
  (a category filter where there was none, a completion filter in place of "all", a
  search term where there was none) never makes a record visible that was not; the set
  of visible records does not grow.
\<close>

theorem filter_monotonic:
  "(filter_category s ! 0 = NUL \<longrightarrow>
      (todo_matches_filter idx (s\<lparr>filter_category := fc\<rparr>) = Some 1 \<longrightarrow>
         todo_matches_filter idx s = Some 1) \<and>
      set (visible (s\<lparr>filter_category := fc\<rparr>)) \<subseteq> set (visible s)) \<and>
   (filter_done s = - 1 \<longrightarrow>
      (todo_matches_filter idx (s\<lparr>filter_done := v\<rparr>) = Some 1 \<longrightarrow>
         todo_matches_filter idx s = Some 1) \<and>
      set (visible (s\<lparr>filter_done := v\<rparr>)) \<subseteq> set (visible s)) \<and>
   (search_term s ! 0 = NUL \<longrightarrow>
      (todo_matches_filter idx (s\<lparr>search_term := st\<rparr>) = Some 1 \<longrightarrow>
         todo_matches_filter idx s = Some 1) \<and>
      set (visible (s\<lparr>search_term := st\<rparr>)) \<subseteq> set (visible s))"
proof (intro conjI impI)
  assume off: "filter_category s ! 0 = NUL"
  show "set (visible (s\<lparr>filter_category := fc\<rparr>)) \<subseteq> set (visible s)"
    by (rule visible_mono) (simp_all add: category_added [OF off])
next
  assume off: "filter_done s = - 1"
  show "set (visible (s\<lparr>filter_done := v\<rparr>)) \<subseteq> set (visible s)"
    by (rule visible_mono) (simp_all add: status_added [OF off])
next
  assume off: "search_term s ! 0 = NUL"
  show "set (visible (s\<lparr>search_term := st\<rparr>)) \<subseteq> set (visible s)"
    by (rule visible_mono) (simp_all add: search_added [OF off])
qed (fact category_added status_added search_added)+

theorem filter_monotonic_witness:
  "filter_category ex_store ! 0 = NUL \<and> filter_done ex_store = - 1 \<and>
   search_term ex_store ! 0 = NUL \<and>
   todo_matches_filter 0 (ex_store\<lparr>filter_category := buf_of ''FAMILY''\<rparr>) = Some 1 \<and>
   todo_matches_filter 0 (ex_store\<lparr>filter_done := 0\<rparr>) = Some 1 \<and>
   todo_matches_filter 0 (ex_store\<lparr>search_term := buf_of ''mil''\<rparr>) = Some 1 \<and>
   todo_matches_filter 0 ex_store = Some 1 \<and>
   set (visible (ex_store\<lparr>filter_category := buf_of ''FAMILY''\<rparr>)) \<subseteq> set (visible ex_store) \<and>
   set (visible (ex_store\<lparr>filter_done := 0\<rparr>)) \<subseteq> set (visible ex_store) \<and>
   set (visible (ex_store\<lparr>search_term := buf_of ''mil''\<rparr>)) \<subseteq> set (visible ex_store)"
proof -
  have off: "filter_category ex_store ! 0 = NUL" "filter_done ex_store = - 1"
    "search_term ex_store ! 0 = NUL"
    by (simp_all add: ex_store_def init_state_def zero_buf_def)
  have on: "todo_matches_filter 0 (ex_store\<lparr>filter_category := buf_of ''FAMILY''\<rparr>) = Some 1"
    "todo_matches_filter 0 (ex_store\<lparr>filter_done := 0\<rparr>) = Some 1"
    "todo_matches_filter 0 (ex_store\<lparr>search_term := buf_of ''mil''\<rparr>) = Some 1"
    by code_simp+
  from filter_monotonic [of ex_store 0 "buf_of ''FAMILY''" 0 "buf_of ''mil''"] off on
  show ?thesis
    by blast
qed

subsection \<open>The status filter\<close>

text \<open>
  Claim C2. One invocation of the status-filter operation (key \<^verbatim>\<open>f\<close>) should advance the
  filter along the cycle all, pending-only, done-only, all. The expression
  \<^verbatim>\<open>(filter_done + 1) % 3 - 1\<close> does not: it returns each of the three values -1, 0
  and 1 unchanged, so the filter stays where it is; from "all" it yields "all".
\<close>

theorem filter_by_status_stuck:
  "filter_done (filter_by_status (s\<lparr>filter_done := - 1\<rparr>)) = - 1 \<and>
   filter_done (filter_by_status (s\<lparr>filter_done := 0\<rparr>)) = 0 \<and>
   filter_done (filter_by_status (s\<lparr>filter_done := 1\<rparr>)) = 1"
  by (simp add: filter_by_status_def c_rem_def signed_modulo_int_def)

text \<open>
  Claim C10. Setting the category filter (\<^verbatim>\<open>C\<close>), cycling the status filter (\<^verbatim>\<open>f\<close>) and
  setting the search term (\<^verbatim>\<open>/\<close>) each set the selection to 0, whatever it was and
  whatever the store holds; resetting the filters (\<^verbatim>\<open>r\<close>) clears the three criteria and
  leaves the selection as it is. The line typed fits the buffer.
\<close>

theorem filters_and_selection:
  assumes "length line < MAX_LENGTH"
    and "length (filter_category s) = MAX_LENGTH"
    and "length (search_term s) = MAX_LENGTH"
  shows "(\<exists>s'. dispatch mktime (key CHR ''C'') line s = Some s' \<and> selected s' = 0) \<and>
         (\<exists>s'. dispatch mktime (key CHR ''f'') line s = Some s' \<and> selected s' = 0) \<and>
         (\<exists>s'. dispatch mktime (key CHR ''/'') line s = Some s' \<and> selected s' = 0) \<and>
         (\<exists>s'. dispatch mktime (key CHR ''r'') line s = Some s' \<and> selected s' = selected s \<and>
             str (filter_category s') = [] \<and> filter_done s' = - 1 \<and> str (search_term s') = [])"
proof -
  from assms(2,3) have "filter_category s \<noteq> []" "search_term s \<noteq> []"
    by auto
  then show ?thesis
    using assms
    by (simp add: dispatch_filter_keys filter_by_category_def search_todos_def getstr_def
        filter_by_status_def reset_filters_def str_clear)
qed

theorem filters_and_selection_witness:
  "length ''work'' < (MAX_LENGTH::nat) \<and> length (filter_category ex_state) = MAX_LENGTH \<and>
   length (search_term ex_state) = MAX_LENGTH \<and>
   (\<exists>s'. dispatch ex_mktime (key CHR ''C'') ''work'' ex_state = Some s' \<and> selected s' = 0) \<and>
   (\<exists>s'. dispatch ex_mktime (key CHR ''f'') ''work'' ex_state = Some s' \<and> selected s' = 0) \<and>
   (\<exists>s'. dispatch ex_mktime (key CHR ''/'') ''work'' ex_state = Some s' \<and> selected s' = 0) \<and>
   (\<exists>s'. dispatch ex_mktime (key CHR ''r'') ''work'' ex_state = Some s' \<and>
       selected s' = selected ex_state \<and>
       str (filter_category s') = [] \<and> filter_done s' = - 1 \<and> str (search_term s') = [])"
proof -
  have a: "length ''work'' < (MAX_LENGTH::nat)" by simp
  have b: "length (filter_category ex_state) = MAX_LENGTH"
    by (simp add: ex_state_def buf_of_def)
  have c: "length (search_term ex_state) = MAX_LENGTH"
    by (simp add: ex_state_def buf_of_def)
  show ?thesis
    using filters_and_selection [OF a b c, of ex_mktime] a b c by blast
qed

subsection \<open>Signed arithmetic without overflow\<close>

lemma sint_succ: "sint i < sint (j :: c_int) \<Longrightarrow> sint (i + 1 :: c_int) = sint i + 1"
proof -
  assume "sint i < sint j"
  moreover have "sint j < 2 ^ 31" using sint_lt [of j] by simp
  moreover have "- (2 ^ 31) \<le> sint i" using sint_ge [of i] by simp
  ultimately show ?thesis
    by (simp add: sint_word_ariths signed_take_bit_int_eq_self)
qed

lemma sint_pred: "sint (j :: c_int) < sint i \<Longrightarrow> sint (i - 1 :: c_int) = sint i - 1"
proof -
  assume "sint j < sint i"
  moreover have "sint i < 2 ^ 31" using sint_lt [of i] by simp
  moreover have "- (2 ^ 31) \<le> sint j" using sint_ge [of j] by simp
  ultimately show ?thesis
    by (simp add: sint_word_ariths signed_take_bit_int_eq_self)
qed

lemma in_array_iff: "in_array ts i \<longleftrightarrow> 0 \<le> sint i \<and> sint i < int (length ts)"
  by (auto simp: in_array_def word_sle_eq)

lemma str_append_NUL: "NUL \<notin> set x \<Longrightarrow> str (x @ NUL # r) = x"
  by (induction x) (auto simp: str_def)

subsection \<open>What a prompt leaves in a buffer\<close>

lemma getstr_local:
  "length line < MAX_LENGTH \<Longrightarrow>
   getstr local_buf line = Some (line @ NUL # replicate (127 - length line) NUL)"
  by (simp add: getstr_def local_buf_def)

lemma str_no_NUL: "NUL \<notin> set x \<Longrightarrow> str x = x"
  by (induction x) (auto simp: str_def)

lemma str_take_line:
  assumes "NUL \<notin> set line" "length line < MAX_LENGTH"
  shows "str (take 127 (line @ NUL # r)) = line"
proof (cases "length line = 127")
  case True
  then show ?thesis using assms by (simp add: str_no_NUL)
next
  case False
  with assms have "take 127 (line @ NUL # r) = line @ NUL # take (126 - length line) r"
    by (simp add: take_Cons')
  then show ?thesis using assms by (simp add: str_append_NUL)
qed

lemma strncpy_line:
  assumes "NUL \<notin> set line" "length line < MAX_LENGTH" "length dst = MAX_LENGTH"
  shows "strncpy dst (line @ NUL # replicate (127 - length line) NUL) 127 =
     Some (line @ replicate (127 - length line) NUL @ drop 127 dst)"
proof -
  let ?src = "line @ NUL # replicate (127 - length line) NUL"
  have s: "str (take 127 ?src) = line"
    using assms(1,2) by (rule str_take_line)
  have len: "127 \<le> length ?src" "127 \<le> length dst"
    using assms(2,3) by simp_all
  show ?thesis
    unfolding strncpy_def Let_def s using len by simp
qed

lemma drop_127_buf: "buf_ok b \<Longrightarrow> drop 127 b = [NUL]"
proof -
  assume ok: "buf_ok b"
  then have len: "length b = 128" by (simp add: buf_ok_def)
  then have "b \<noteq> []" by auto
  then have "b = butlast b @ [last b]" by simp
  moreover have "length (butlast b) = 127" using len by simp
  ultimately have "drop 127 b = [last b]"
    by (metis append_eq_conv_conj)
  then show ?thesis using ok by (simp add: buf_ok_def)
qed

lemma str_pad: "NUL \<notin> set x \<Longrightarrow> str (x @ replicate k NUL @ [NUL]) = x"
proof (cases k)
  case 0
  assume "NUL \<notin> set x"
  then show ?thesis using 0 by (simp add: str_append_NUL)
next
  case (Suc m)
  assume "NUL \<notin> set x"
  then show ?thesis using Suc str_append_NUL [of x "replicate m NUL @ [NUL]"] by simp
qed

lemma copied_buf:
  assumes "NUL \<notin> set line" "length line < MAX_LENGTH" "buf_ok dst"
  shows "str (line @ replicate (127 - length line) NUL @ drop 127 dst) = line"
    and "buf_ok (line @ replicate (127 - length line) NUL @ drop 127 dst)"
  using assms by (simp_all add: drop_127_buf str_pad) (simp add: buf_ok_def)

subsection \<open>Add\<close>

lemma buf_ok_zero: "buf_ok zero_buf"
  by (simp add: buf_ok_def zero_buf_def)

lemma buf_ok_buf_of: "length x < MAX_LENGTH \<Longrightarrow> buf_ok (buf_of x)"
  by (simp add: buf_ok_def buf_of_def)

lemma todo_ok_zero: "todo_ok zero_todo"
  by (simp add: todo_ok_def zero_todo_def buf_ok_zero)

lemma state_ok_init: "state_ok init_state"
  by (simp add: state_ok_def init_state_def list_all_iff todo_ok_zero buf_ok_zero word_sle_eq)

lemma state_ok_full: "state_ok ex_full"
  using state_ok_init by (simp add: state_ok_def ex_full_def init_state_def word_sle_eq)

lemma state_ok_todo: "state_ok s \<Longrightarrow> i < MAX_TODOS \<Longrightarrow> todo_ok (todos s ! i)"
  by (simp add: state_ok_def list_all_length)

lemma state_ok_count: "state_ok s \<Longrightarrow> 0 \<le> sint (todo_count s) \<and> sint (todo_count s) \<le> 100"
  by (simp add: state_ok_def word_sle_eq)

lemma line_head: "NUL \<notin> set line \<Longrightarrow> ((line @ NUL # r) ! 0 = NUL) = (line = [])"
  by (cases line) auto

lemma add_todo_full:
  assumes ok: "state_ok s" and fits: "length line < MAX_LENGTH" and clean: "NUL \<notin> set line"
    and some: "line \<noteq> []" and room: "todo_count s <s MAX_TODOS"
  shows "add_todo line s = Some (s\<lparr>todos := (todos s)[nat (sint (todo_count s)) :=
            (todos s ! nat (sint (todo_count s)))
              \<lparr>t_text := line @ replicate (127 - length line) NUL @
                   drop 127 (t_text (todos s ! nat (sint (todo_count s)))),
               t_category := (t_category (todos s ! nat (sint (todo_count s))))[0 := NUL],
               t_due_date := 0, t_done := 0\<rparr>],
          todo_count := todo_count s + 1, selected := todo_count s\<rparr>)"
proof -
  let ?n = "nat (sint (todo_count s))"
  from room have lt: "sint (todo_count s) < 100"
    by (simp add: word_sless_alt)
  with ok have arr: "in_array (todos s) (todo_count s)"
    using state_ok_count [OF ok] by (simp add: in_array_iff state_ok_def)
  have "?n < MAX_TODOS" using lt by simp
  then have "todo_ok (todos s ! ?n)" using ok by (rule state_ok_todo [rotated])
  then have len: "length (t_text (todos s ! ?n)) = MAX_LENGTH"
    by (simp add: todo_ok_def buf_ok_def)
  show ?thesis
    unfolding add_todo_def
    using room arr some
    by (simp add: getstr_local [OF fits] line_head [OF clean] todo_at_def todo_put_def
        strncpy_line [OF clean fits len])
qed

text \<open>
  Claim C5, as amended. For every well-formed store and every input line that fits the
  input buffer of \<^verbatim>\<open>MAX_LENGTH\<close> bytes (a string of at most 127 bytes): if the line is
  not empty and the count is below the capacity (100), Add appends exactly one record
  with the given text, an empty category, no due date (0) and \<^verbatim>\<open>done\<close> false,
  increments the count by one, leaves every other record as it was and sets the
  selection to the new last index; if the line is empty or the count equals the
  capacity, Add changes nothing.
\<close>

theorem add_todo_spec:
  assumes ok: "state_ok s" and fits: "length line < MAX_LENGTH" and clean: "NUL \<notin> set line"
  shows "(line \<noteq> [] \<and> todo_count s <s MAX_TODOS \<longrightarrow>
           (\<exists>s'. add_todo line s = Some s' \<and>
              sint (todo_count s') = sint (todo_count s) + 1 \<and>
              selected s' = todo_count s' - 1 \<and> selected s' = todo_count s \<and>
              length (todos s') = length (todos s) \<and>
              str (t_text (todos s' ! nat (sint (todo_count s)))) = line \<and>
              str (t_category (todos s' ! nat (sint (todo_count s)))) = [] \<and>
              t_due_date (todos s' ! nat (sint (todo_count s))) = 0 \<and>
              t_done (todos s' ! nat (sint (todo_count s))) = 0 \<and>
              (\<forall>i. i \<noteq> nat (sint (todo_count s)) \<longrightarrow> todos s' ! i = todos s ! i) \<and>
              filter_category s' = filter_category s \<and> filter_done s' = filter_done s \<and>
              search_term s' = search_term s)) \<and>
         (line = [] \<or> todo_count s = MAX_TODOS \<longrightarrow> add_todo line s = Some s)"
proof (intro conjI impI)
  assume "line \<noteq> [] \<and> todo_count s <s MAX_TODOS"
  then have some: "line \<noteq> []" and room: "todo_count s <s MAX_TODOS"
    by simp_all
  let ?n = "nat (sint (todo_count s))"
  from room have lt: "sint (todo_count s) < 100"
    by (simp add: word_sless_alt)
  then have n: "?n < length (todos s)"
    using ok by (simp add: state_ok_def)
  have "todo_ok (todos s ! ?n)"
    using ok n by (simp add: state_ok_todo state_ok_def)
  then have t: "buf_ok (t_text (todos s ! ?n))" and c: "t_category (todos s ! ?n) \<noteq> []"
    by (auto simp: todo_ok_def buf_ok_def)
  have inc: "sint (todo_count s + 1) = sint (todo_count s) + 1"
    using lt sint_succ [of "todo_count s" 100] by simp
  show "\<exists>s'. add_todo line s = Some s' \<and>
              sint (todo_count s') = sint (todo_count s) + 1 \<and>
              selected s' = todo_count s' - 1 \<and> selected s' = todo_count s \<and>
              length (todos s') = length (todos s) \<and>
              str (t_text (todos s' ! nat (sint (todo_count s)))) = line \<and>
              str (t_category (todos s' ! nat (sint (todo_count s)))) = [] \<and>
              t_due_date (todos s' ! nat (sint (todo_count s))) = 0 \<and>
              t_done (todos s' ! nat (sint (todo_count s))) = 0 \<and>
              (\<forall>i. i \<noteq> nat (sint (todo_count s)) \<longrightarrow> todos s' ! i = todos s ! i) \<and>
              filter_category s' = filter_category s \<and> filter_done s' = filter_done s \<and>
              search_term s' = search_term s"
    using n inc c
    by (simp add: add_todo_full [OF ok fits clean some room] copied_buf(1) [OF clean fits t]
        str_clear)
next
  assume "line = [] \<or> todo_count s = MAX_TODOS"
  then show "add_todo line s = Some s"
    using fits by (auto simp: add_todo_def getstr_local)
qed

theorem add_todo_spec_witness:
  "state_ok init_state \<and> length ''Buy milk'' < (MAX_LENGTH :: nat) \<and> NUL \<notin> set ''Buy milk'' \<and>
   ''Buy milk'' \<noteq> [] \<and> todo_count init_state <s MAX_TODOS \<and>
   (\<exists>s'. add_todo ''Buy milk'' init_state = Some s' \<and> sint (todo_count s') = 1 \<and>
      selected s' = 0 \<and> str (t_text (todos s' ! 0)) = ''Buy milk'' \<and>
      str (t_category (todos s' ! 0)) = [] \<and> t_due_date (todos s' ! 0) = 0 \<and>
      t_done (todos s' ! 0) = 0) \<and>
   add_todo [] init_state = Some init_state \<and>
   state_ok ex_full \<and> todo_count ex_full = MAX_TODOS \<and>
   add_todo ''Buy milk'' ex_full = Some ex_full"
proof -
  have fits: "length ''Buy milk'' < (MAX_LENGTH :: nat)" and clean: "NUL \<notin> set ''Buy milk''"
    and fits0: "length [] < (MAX_LENGTH :: nat)" and clean0: "NUL \<notin> set []"
    by simp_all
  have room: "''Buy milk'' \<noteq> [] \<and> todo_count init_state <s MAX_TODOS"
    by (simp add: init_state_def word_sless_alt)
  have full: "todo_count ex_full = MAX_TODOS"
    by (simp add: ex_full_def)
  have zero: "sint (todo_count init_state) = 0"
    by (simp add: init_state_def)
  from add_todo_spec [OF state_ok_init fits clean] room zero
  have a: "\<exists>s'. add_todo ''Buy milk'' init_state = Some s' \<and> sint (todo_count s') = 1 \<and>
      selected s' = 0 \<and> str (t_text (todos s' ! 0)) = ''Buy milk'' \<and>
      str (t_category (todos s' ! 0)) = [] \<and> t_due_date (todos s' ! 0) = 0 \<and>
      t_done (todos s' ! 0) = 0"
    by (auto simp: init_state_def)
  from add_todo_spec [OF state_ok_init fits0 clean0]
  have b: "add_todo [] init_state = Some init_state"
    by simp
  from add_todo_spec [OF state_ok_full fits clean] full
  have c: "add_todo ''Buy milk'' ex_full = Some ex_full"
    by simp
  from a b c room full fits clean state_ok_init state_ok_full show ?thesis
    by blast
qed

text \<open>
  Claim C5 as stated, for every input line, fails: the prompt reads the line with
  \<^verbatim>\<open>getstr\<close> into \<^verbatim>\<open>new_todo\<close>, which has \<^verbatim>\<open>MAX_LENGTH\<close> bytes. A line of 200 bytes is
  written past the end of the buffer, and what the code does then is undefined: no
  record with the given text is appended.
\<close>

theorem add_todo_long_line_counterexample:
  "state_ok init_state \<and> NUL \<notin> set long_line \<and> long_line \<noteq> [] \<and>
   todo_count init_state <s MAX_TODOS \<and> add_todo long_line init_state = None"
  using state_ok_init
  by (simp add: add_todo_def getstr_def local_buf_def long_line_def init_state_def
      word_sless_alt)

subsection \<open>Delete\<close>

lemma delete_loop_shift:
  "0 \<le> sint i \<Longrightarrow> sint i < sint cnt \<Longrightarrow> sint cnt \<le> int (length ts) \<Longrightarrow>
   \<exists>ts'. delete_loop i cnt ts = Some ts' \<and> length ts' = length ts \<and>
     (\<forall>j < length ts. ts' ! j =
        (if nat (sint i) \<le> j \<and> j < nat (sint cnt) - 1 then ts ! Suc j else ts ! j))"
proof (induction i cnt ts rule: delete_loop.induct)
  case (1 i cnt ts)
  have dec: "sint (cnt - 1) = sint cnt - 1"
    using "1.prems"(2) by (rule sint_pred)
  show ?case
  proof (cases "i <s cnt - 1")
    case False
    then have "sint i = sint cnt - 1"
      using "1.prems" dec by (simp add: word_sless_alt)
    moreover have "delete_loop i cnt ts = Some ts"
      using False by (subst delete_loop.simps) simp
    ultimately show ?thesis
      using "1.prems" by auto
  next
    case True
    then have lt: "sint i < sint cnt - 1"
      using dec by (simp add: word_sless_alt)
    have inc: "sint (i + 1) = sint i + 1"
      using sint_succ [of i cnt] "1.prems"(2) by simp
    have a1: "in_array ts (i + 1)" and a0: "in_array ts i"
      using "1.prems" lt inc by (simp_all add: in_array_iff)
    let ?ts1 = "ts[nat (sint i) := ts ! nat (sint (i + 1))]"
    have step: "delete_loop i cnt ts = delete_loop (i + 1) cnt ?ts1"
      using True a1 a0 by (subst delete_loop.simps) (simp add: todo_at_def todo_put_def)
    have "\<exists>ts'. delete_loop (i + 1) cnt ?ts1 = Some ts' \<and> length ts' = length ?ts1 \<and>
       (\<forall>j < length ?ts1. ts' ! j =
          (if nat (sint (i + 1)) \<le> j \<and> j < nat (sint cnt) - 1 then ?ts1 ! Suc j else ?ts1 ! j))"
      using "1.IH" [OF True, of "ts ! nat (sint (i + 1))" ?ts1] a1 a0 "1.prems" lt inc
      by (simp add: todo_at_def todo_put_def)
    then obtain ts' where r: "delete_loop (i + 1) cnt ?ts1 = Some ts'" "length ts' = length ts"
      and nth: "\<And>j. j < length ts \<Longrightarrow> ts' ! j =
          (if nat (sint (i + 1)) \<le> j \<and> j < nat (sint cnt) - 1 then ?ts1 ! Suc j else ?ts1 ! j)"
      by auto
    have "ts' ! j = (if nat (sint i) \<le> j \<and> j < nat (sint cnt) - 1 then ts ! Suc j else ts ! j)"
      if "j < length ts" for j
      using nth [OF that] that "1.prems" lt inc
      by (auto simp: nth_list_update nat_add_distrib)
    then show ?thesis
      using step r by simp
  qed
qed

lemma selected_after_delete:
  fixes sel cnt :: c_int
  assumes "0 < sint cnt" "0 \<le> sint sel" "sint sel < sint cnt"
  shows "sint (if cnt - 1 \<le>s sel \<and> 0 <s sel then sel - 1 else sel) =
     (if sint cnt - 1 \<le> sint sel \<and> 0 < sint sel then sint sel - 1 else sint sel)"
proof -
  have dec: "sint (cnt - 1) = sint cnt - 1"
    using assms(1) sint_pred [of 0 cnt] by simp
  show ?thesis
  proof (cases "0 < sint sel")
    case True
    then have "sint (sel - 1) = sint sel - 1"
      using sint_pred [of 0 sel] by simp
    then show ?thesis
      using dec by (simp add: word_sle_eq word_sless_alt)
  next
    case False
    then show ?thesis
      by (simp add: word_sless_alt)
  qed
qed

lemma delete_todo_shift:
  assumes size: "sint (todo_count s) = int n" "1 \<le> n" "n \<le> length (todos s)"
    and index: "sint idx = int i" "i < n"
  shows "\<exists>ts'. delete_loop idx (todo_count s) (todos s) = Some ts' \<and>
           delete_todo idx s =
             Some (s\<lparr>todos := ts', todo_count := todo_count s - 1,
                     selected := (if todo_count s - 1 \<le>s selected s \<and> 0 <s selected s
                                  then selected s - 1 else selected s)\<rparr>) \<and>
           sint (todo_count s - 1) = int n - 1 \<and>
           length ts' = length (todos s) \<and>
           (\<forall>j < i. ts' ! j = todos s ! j) \<and>
           (\<forall>j. i \<le> j \<and> j < n - 1 \<longrightarrow> ts' ! j = todos s ! (j + 1))"
proof -
  have "0 \<le> sint idx" "sint idx < sint (todo_count s)"
    "sint (todo_count s) \<le> int (length (todos s))"
    using size index by simp_all
  from delete_loop_shift [OF this]
  obtain ts' where loop: "delete_loop idx (todo_count s) (todos s) = Some ts'"
    and len: "length ts' = length (todos s)"
    and nth: "\<And>j. j < length (todos s) \<Longrightarrow> ts' ! j =
        (if i \<le> j \<and> j < n - 1 then todos s ! Suc j else todos s ! j)"
    using size index by auto
  have dec: "sint (todo_count s - 1) = int n - 1"
    using size sint_pred [of 0 "todo_count s"] by simp
  have "\<forall>j < i. ts' ! j = todos s ! j"
    using nth index size by simp
  moreover have "\<forall>j. i \<le> j \<and> j < n - 1 \<longrightarrow> ts' ! j = todos s ! (j + 1)"
  proof (intro allI impI)
    fix j
    assume j: "i \<le> j \<and> j < n - 1"
    then have "j < length (todos s)"
      using size(3) by linarith
    from nth [OF this] j show "ts' ! j = todos s ! (j + 1)"
      by simp
  qed
  ultimately show ?thesis
    using dec len by (intro exI [of _ ts']) (simp add: delete_todo_def loop Let_def)
qed

lemma delete_todo_cursor:
  assumes size: "sint (todo_count s) = int n" "1 \<le> n" and sel: "selection_ok s"
  defines "sel' \<equiv> (if todo_count s - 1 \<le>s selected s \<and> 0 <s selected s
                     then selected s - 1 else selected s)"
  shows "int n - 1 \<le> sint (selected s) \<longrightarrow> sint sel' = (if n = 1 then 0 else int n - 2)"
    and "sint (selected s) < int n - 1 \<longrightarrow> sel' = selected s"
    and "selection_ok (s\<lparr>todos := ts', todo_count := todo_count s - 1, selected := sel'\<rparr>)"
proof -
  have pos: "0 < sint (todo_count s)"
    using size by simp
  then have valid: "0 \<le> sint (selected s)" "sint (selected s) < sint (todo_count s)"
    using sel by (simp_all add: selection_ok_def word_sless_alt word_sle_eq)
  have dec: "sint (todo_count s - 1) = int n - 1"
    using pos size sint_pred [of 0 "todo_count s"] by simp
  have new: "sint sel' = (if int n - 1 \<le> sint (selected s) \<and> 0 < sint (selected s)
              then sint (selected s) - 1 else sint (selected s))"
    unfolding sel'_def using selected_after_delete [OF pos valid] size by simp
  show "int n - 1 \<le> sint (selected s) \<longrightarrow> sint sel' = (if n = 1 then 0 else int n - 2)"
    using new valid size by auto
  show "sint (selected s) < int n - 1 \<longrightarrow> sel' = selected s"
    unfolding sel'_def using dec by (simp add: word_sle_eq)
  show "selection_ok (s\<lparr>todos := ts', todo_count := todo_count s - 1, selected := sel'\<rparr>)"
    using new valid size dec
    by (auto simp: selection_ok_def word_sless_alt word_sle_eq simp del: if_split split: if_splits)
qed

text \<open>
  Claim C6. For every store of size \<open>n \<ge> 1\<close> and every index \<open>i\<close> in \<open>[0, n-1]\<close>,
  \<^verbatim>\<open>delete_todo(i)\<close> yields a store of size \<open>n-1\<close> in which the records formerly at
  \<open>0..i-1\<close> are where they were and the records formerly at \<open>i+1..n-1\<close> are at
  \<open>i..n-2\<close>; a selection at or beyond the new end moves to the new last index, or
  stays at 0 when the store becomes empty. What is said of the selection is said of a
  selection that is an index of the store before the call, as the invariant of the
  cursor has it.
\<close>

theorem delete_todo_spec:
  assumes size: "sint (todo_count s) = int n" "1 \<le> n" "n \<le> length (todos s)"
    and index: "sint idx = int i" "i < n"
  shows "\<exists>s'. delete_todo idx s = Some s' \<and>
           sint (todo_count s') = int n - 1 \<and>
           length (todos s') = length (todos s) \<and>
           (\<forall>j < i. todos s' ! j = todos s ! j) \<and>
           (\<forall>j. i \<le> j \<and> j < n - 1 \<longrightarrow> todos s' ! j = todos s ! (j + 1)) \<and>
           (selection_ok s \<longrightarrow>
              (int n - 1 \<le> sint (selected s) \<longrightarrow>
                 sint (selected s') = (if n = 1 then 0 else int n - 2)) \<and>
              (sint (selected s) < int n - 1 \<longrightarrow> selected s' = selected s) \<and>
              selection_ok s')"
proof -
  from delete_todo_shift [OF assms] obtain ts'
    where del: "delete_todo idx s =
             Some (s\<lparr>todos := ts', todo_count := todo_count s - 1,
                     selected := (if todo_count s - 1 \<le>s selected s \<and> 0 <s selected s
                                  then selected s - 1 else selected s)\<rparr>)"
      and store: "sint (todo_count s - 1) = int n - 1" "length ts' = length (todos s)"
        "\<forall>j < i. ts' ! j = todos s ! j"
        "\<forall>j. i \<le> j \<and> j < n - 1 \<longrightarrow> ts' ! j = todos s ! (j + 1)"
    by blast
  show ?thesis
    using del store delete_todo_cursor(1,2) [OF size(1,2)]
      delete_todo_cursor(3) [OF size(1,2), of ts']
    by (intro exI [of _ "s\<lparr>todos := ts', todo_count := todo_count s - 1,
          selected := (if todo_count s - 1 \<le>s selected s \<and> 0 <s selected s
                       then selected s - 1 else selected s)\<rparr>"]) simp
qed

lemma selection_ok_two: "selection_ok ex_two"
  by (simp add: selection_ok_def ex_two_def word_sle_eq word_sless_alt)

theorem delete_todo_spec_witness:
  "sint (todo_count ex_two) = int 2 \<and> (1::nat) \<le> 2 \<and> 2 \<le> length (todos ex_two) \<and>
   sint (0 :: c_int) = int 0 \<and> (0::nat) < 2 \<and> selection_ok ex_two \<and>
   (\<exists>s'. delete_todo 0 ex_two = Some s' \<and> sint (todo_count s') = 1 \<and>
      todos s' ! 0 = ex_todo2 \<and> sint (selected s') = 0 \<and> selection_ok s')"
proof -
  have a: "sint (todo_count ex_two) = int 2" and b: "(1::nat) \<le> 2"
    and c: "2 \<le> length (todos ex_two)" and d: "sint (0 :: c_int) = int 0" and e: "(0::nat) < 2"
    by (simp_all add: ex_two_def init_state_def)
  have sel: "sint (selected ex_two) = 1" and second: "todos ex_two ! 1 = ex_todo2"
    by (simp_all add: ex_two_def init_state_def)
  from delete_todo_spec [OF a b c d e] selection_ok_two sel second
  have "\<exists>s'. delete_todo 0 ex_two = Some s' \<and> sint (todo_count s') = 1 \<and>
      todos s' ! 0 = ex_todo2 \<and> sint (selected s') = 0 \<and> selection_ok s'"
    by auto
  with a b c d e selection_ok_two show ?thesis
    by blast
qed

subsection \<open>Due dates\<close>

lemma cstr_line: "NUL \<notin> set line \<Longrightarrow> cstr (line @ NUL # r) = Some line"
  by (simp add: cstr_def str_append_NUL)

text \<open>The digits read by the loop of the conversion have their value in base ten.\<close>

lemma decimal_Nil: "decimal [] = 0"
  by (simp add: decimal_def)

lemma decimal_snoc: "decimal (ds @ [c]) = 10 * decimal ds + (int (of_char c) - 48)"
proof -
  have "(\<Sum>i<length ds. (int (of_char ((ds @ [c]) ! i)) - 48) * 10 ^ (length (ds @ [c]) - Suc i)) =
      (\<Sum>i<length ds. 10 * ((int (of_char (ds ! i)) - 48) * 10 ^ (length ds - Suc i)))"
  proof (rule sum.cong)
    fix i
    assume "i \<in> {..<length ds}"
    then have i: "i < length ds" by simp
    then have "length (ds @ [c]) - Suc i = Suc (length ds - Suc i)"
      by simp
    then show "(int (of_char ((ds @ [c]) ! i)) - 48) * 10 ^ (length (ds @ [c]) - Suc i) =
        10 * ((int (of_char (ds ! i)) - 48) * 10 ^ (length ds - Suc i))"
      using i by (simp only: nth_append power_Suc) simp
  qed simp
  then show ?thesis
    by (simp add: decimal_def sum_distrib_left)
qed

lemma foldl_digits:
  "foldl (\<lambda>v c. 10 * v + (int (of_char c) - 48)) a ds = a * 10 ^ length ds + decimal ds"
proof (induction ds rule: rev_induct)
  case Nil
  then show ?case by (simp add: decimal_Nil)
next
  case (snoc c ds)
  then show ?case by (simp add: decimal_snoc algebra_simps)
qed

lemma digits_val_decimal: "digits_val ds = decimal ds"
  by (simp add: digits_val_def foldl_digits)

lemma digit_not_space: "isdigit c \<Longrightarrow> \<not> isspace c"
  by (auto simp: isdigit_def isspace_def)

lemma digit_not_sign: "isdigit c \<Longrightarrow> c \<noteq> CHR ''-'' \<and> c \<noteq> CHR ''+''"
  by (auto simp: isdigit_def)

lemma sign_not_space: "\<not> isspace CHR ''-''" "\<not> isspace CHR ''+''"
  by (simp_all add: isspace_def)

lemma sign_not_digit: "\<not> isdigit CHR ''-''" "\<not> isdigit CHR ''+''"
  by (simp_all add: isdigit_def)

lemma span_all:
  "list_all P xs \<Longrightarrow> (case r of [] \<Rightarrow> True | c # _ \<Rightarrow> \<not> P c) \<Longrightarrow>
   takeWhile P (xs @ r) = xs \<and> dropWhile P (xs @ r) = r"
  by (induction xs) (auto split: list.splits)

text \<open>\<^verbatim>\<open>%d\<close> converts exactly the inputs that begin with a number.\<close>

lemma scan_d_cases:
  "scan_d inp =
     (case dropWhile isspace inp of
        [] \<Rightarrow> None
      | c # t \<Rightarrow>
          if c = CHR ''-'' then
            (if takeWhile isdigit t = [] then None
             else Some (strtol_int (- digits_val (takeWhile isdigit t)), dropWhile isdigit t))
          else if c = CHR ''+'' then
            (if takeWhile isdigit t = [] then None
             else Some (strtol_int (digits_val (takeWhile isdigit t)), dropWhile isdigit t))
          else
            (if takeWhile isdigit (c # t) = [] then None
             else Some (strtol_int (digits_val (takeWhile isdigit (c # t))),
                        dropWhile isdigit (c # t))))"
proof (cases "dropWhile isspace inp")
  case Nil
  show ?thesis
    unfolding scan_d_def Let_def Nil by simp
next
  case (Cons c t)
  show ?thesis
    unfolding scan_d_def Let_def Cons by simp
qed

lemma no_digit_dropWhile: "no_digit_next (dropWhile isdigit t)"
  by (induction t) (simp_all add: no_digit_next_def)

lemma blank_takeWhile: "blank (takeWhile isspace inp)"
  by (induction inp) (simp_all add: blank_def)

lemma digits_takeWhile: "list_all isdigit (takeWhile isdigit t)"
  by (induction t) simp_all

lemma scan_d_sound:
  assumes "scan_d inp = Some (v, r)"
  shows "\<exists>w n x. inp = w @ n @ r \<and> blank w \<and> number n x \<and> no_digit_next r \<and> v = strtol_int x"
proof -
  let ?w = "takeWhile isspace inp"
  have split: "inp = ?w @ dropWhile isspace inp"
    by simp
  show ?thesis
  proof (cases "dropWhile isspace inp")
    case Nil
    show ?thesis using assms [unfolded scan_d_cases Nil] by simp
  next
    case (Cons c t)
    have parts: "t = takeWhile isdigit t @ dropWhile isdigit t"
      "c # t = takeWhile isdigit (c # t) @ dropWhile isdigit (c # t)"
      by (simp_all only: takeWhile_dropWhile_id)
    consider (minus) "c = CHR ''-''" | (plus) "c \<noteq> CHR ''-''" "c = CHR ''+''"
      | (digit) "c \<noteq> CHR ''-''" "c \<noteq> CHR ''+''"
      by blast
    then show ?thesis
    proof cases
      case minus
      let ?ds = "takeWhile isdigit t"
      from assms [unfolded scan_d_cases Cons] minus have ne: "?ds \<noteq> []"
        and v: "v = strtol_int (- digits_val ?ds)" and r: "r = dropWhile isdigit t"
        by (auto split: if_splits)
      have "number (CHR ''-'' # ?ds) (- decimal ?ds)"
        unfolding number_def using ne digits_takeWhile by blast
      moreover have "inp = ?w @ (CHR ''-'' # ?ds) @ r"
        using split Cons minus parts(1) r by simp
      ultimately show ?thesis
        using v r blank_takeWhile no_digit_dropWhile digits_val_decimal by metis
    next
      case plus
      let ?ds = "takeWhile isdigit t"
      from assms [unfolded scan_d_cases Cons] plus have ne: "?ds \<noteq> []"
        and v: "v = strtol_int (digits_val ?ds)" and r: "r = dropWhile isdigit t"
        by (auto split: if_splits)
      have "number (CHR ''+'' # ?ds) (decimal ?ds)"
        unfolding number_def using ne digits_takeWhile by blast
      moreover have "inp = ?w @ (CHR ''+'' # ?ds) @ r"
        using split Cons plus parts(1) r by simp
      ultimately show ?thesis
        using v r blank_takeWhile no_digit_dropWhile digits_val_decimal by metis
    next
      case digit
      let ?ds = "takeWhile isdigit (c # t)"
      from assms [unfolded scan_d_cases Cons] digit have ne: "?ds \<noteq> []"
        and v: "v = strtol_int (digits_val ?ds)" and r: "r = dropWhile isdigit (c # t)"
        by (auto split: if_splits)
      have "number ?ds (decimal ?ds)"
        unfolding number_def using ne digits_takeWhile by blast
      moreover have "inp = ?w @ ?ds @ r"
        using split Cons parts(2) r by simp
      ultimately show ?thesis
        using v r blank_takeWhile no_digit_dropWhile digits_val_decimal by metis
    qed
  qed
qed

lemma scan_d_complete:
  assumes w: "blank w" and n: "number n x" and r: "no_digit_next r"
  shows "scan_d (w @ n @ r) = Some (strtol_int x, r)"
proof -
  from n obtain ds where ds: "ds \<noteq> []" "list_all isdigit ds"
    and form: "n = ds \<and> x = decimal ds \<or> n = CHR ''+'' # ds \<and> x = decimal ds \<or>
        n = CHR ''-'' # ds \<and> x = - decimal ds"
    unfolding number_def by blast
  from ds obtain c ds' where c: "ds = c # ds'" "isdigit c"
    by (cases ds) auto
  have span: "takeWhile isdigit (ds @ r) = ds" "dropWhile isdigit (ds @ r) = r"
    using span_all [of isdigit ds r] ds(2) r by (simp_all add: no_digit_next_def)
  have start: "case n @ r of [] \<Rightarrow> True | a # _ \<Rightarrow> \<not> isspace a"
    using form c digit_not_space sign_not_space by auto
  have skip: "dropWhile isspace (w @ n @ r) = n @ r"
    using span_all [of isspace w "n @ r"] w start by (simp add: blank_def)
  from form consider (plain) "n = ds" "x = decimal ds"
    | (plus) "n = CHR ''+'' # ds" "x = decimal ds"
    | (minus) "n = CHR ''-'' # ds" "x = - decimal ds"
    by blast
  then show ?thesis
  proof cases
    case plain
    have "n @ r = c # (ds' @ r)"
      using plain c by simp
    moreover have "takeWhile isdigit (c # (ds' @ r)) = ds" "dropWhile isdigit (c # (ds' @ r)) = r"
      using span c by simp_all
    ultimately show ?thesis
      unfolding scan_d_cases skip
      using digit_not_sign [OF c(2)] ds(1) plain by (simp add: digits_val_decimal)
  next
    case plus
    then have "n @ r = CHR ''+'' # (ds @ r)"
      by simp
    then show ?thesis
      unfolding scan_d_cases skip using span ds(1) plus by (simp add: digits_val_decimal)
  next
    case minus
    then have "n @ r = CHR ''-'' # (ds @ r)"
      by simp
    then show ?thesis
      unfolding scan_d_cases skip using span ds(1) minus by (simp add: digits_val_decimal)
  qed
qed

lemma scan_lit_Some: "scan_lit c inp = Some r \<longleftrightarrow> inp = c # r"
  by (auto simp: scan_lit_def split: list.splits)

lemma no_digit_minus: "no_digit_next (CHR ''-'' # r)"
  by (simp add: no_digit_next_def sign_not_digit)

lemma sscanf_ymd_sound:
  assumes "sscanf_ymd line = Some (a, b, c)"
  shows "\<exists>y m d. three_components line y m d \<and>
           a = strtol_int y \<and> b = strtol_int m \<and> c = strtol_int d"
proof -
  from assms obtain r1 r2 r3 r4 r5 where
    s1: "scan_d line = Some (a, r1)" and l1: "scan_lit CHR ''-'' r1 = Some r2" and
    s2: "scan_d r2 = Some (b, r3)" and l2: "scan_lit CHR ''-'' r3 = Some r4" and
    s3: "scan_d r4 = Some (c, r5)"
    by (auto simp: sscanf_ymd_def split: Option.bind_splits)
  from scan_d_sound [OF s1] obtain w1 n1 y where
    p1: "line = w1 @ n1 @ r1" "blank w1" "number n1 y" "a = strtol_int y"
    by blast
  from scan_d_sound [OF s2] obtain w2 n2 m where
    p2: "r2 = w2 @ n2 @ r3" "blank w2" "number n2 m" "b = strtol_int m"
    by blast
  from scan_d_sound [OF s3] obtain w3 n3 d where
    p3: "r4 = w3 @ n3 @ r5" "blank w3" "number n3 d" "no_digit_next r5" "c = strtol_int d"
    by blast
  have "line = w1 @ n1 @ CHR ''-'' # w2 @ n2 @ CHR ''-'' # w3 @ n3 @ r5"
    using p1(1) p2(1) p3(1) l1 l2 by (simp add: scan_lit_Some)
  then have "three_components line y m d"
    unfolding three_components_def using p1 p2 p3 by blast
  then show ?thesis
    using p1(4) p2(4) p3(5) by blast
qed

lemma sscanf_ymd_complete:
  assumes "three_components line y m d"
  shows "sscanf_ymd line = Some (strtol_int y, strtol_int m, strtol_int d)"
proof -
  from assms obtain w1 n1 w2 n2 w3 n3 rest where
    line: "line = w1 @ n1 @ CHR ''-'' # w2 @ n2 @ CHR ''-'' # w3 @ n3 @ rest" and
    p: "blank w1" "number n1 y" "blank w2" "number n2 m" "blank w3" "number n3 d"
      "no_digit_next rest"
    unfolding three_components_def by blast
  have s1: "scan_d line = Some (strtol_int y, CHR ''-'' # w2 @ n2 @ CHR ''-'' # w3 @ n3 @ rest)"
    unfolding line using p(1,2) no_digit_minus by (rule scan_d_complete)
  have s2: "scan_d (w2 @ n2 @ CHR ''-'' # w3 @ n3 @ rest) =
      Some (strtol_int m, CHR ''-'' # w3 @ n3 @ rest)"
    using p(3,4) no_digit_minus by (rule scan_d_complete)
  have s3: "scan_d (w3 @ n3 @ rest) = Some (strtol_int d, rest)"
    using p(5,6,7) by (rule scan_d_complete)
  show ?thesis
    by (simp add: sscanf_ymd_def s1 s2 s3 scan_lit_def)
qed

lemma sscanf_ymd_None:
  "sscanf_ymd line = None \<longleftrightarrow> (\<forall>y m d. \<not> three_components line y m d)"
proof
  assume "sscanf_ymd line = None"
  then show "\<forall>y m d. \<not> three_components line y m d"
    using sscanf_ymd_complete by fastforce
next
  assume none: "\<forall>y m d. \<not> three_components line y m d"
  show "sscanf_ymd line = None"
  proof (cases "sscanf_ymd line")
    case None
    then show ?thesis .
  next
    case (Some t)
    obtain a b c where "t = (a, b, c)"
      by (cases t)
    with Some sscanf_ymd_sound none show ?thesis
      by blast
  qed
qed

lemma strtol_int_in_range:
  assumes "- (2 ^ 31) \<le> v" "v < 2 ^ 31"
  shows "sint (strtol_int v) = v"
proof -
  have "max (- (2 ^ 63)) (min (2 ^ 63 - 1) v) = v"
    using assms by simp
  then have "sint (strtol_int v) = signed_take_bit 31 v"
    by (simp add: strtol_int_def sint_sbintrunc')
  then show ?thesis
    using assms by (simp add: signed_take_bit_int_eq_self)
qed

lemma set_due_date_cases:
  assumes idx: "in_array (todos s) idx"
    and fits: "length line < MAX_LENGTH" and clean: "NUL \<notin> set line"
  shows "(line = [] \<longrightarrow>
            set_due_date mktime line idx s =
              Some (s\<lparr>todos := (todos s)[nat (sint idx) :=
                (todos s ! nat (sint idx))\<lparr>t_due_date := 0\<rparr>]\<rparr>)) \<and>
         (line \<noteq> [] \<and> sscanf_ymd line = None \<longrightarrow> set_due_date mktime line idx s = Some s) \<and>
         (\<forall>y m d. line \<noteq> [] \<and> sscanf_ymd line = Some (y, m, d) \<longrightarrow>
            set_due_date mktime line idx s =
              Some (s\<lparr>todos := (todos s)[nat (sint idx) :=
                (todos s ! nat (sint idx))\<lparr>t_due_date :=
                   mktime (zero_tm\<lparr>tm_mday := d, tm_mon := m - 1, tm_year := y - 1900\<rparr>)\<rparr>]\<rparr>))"
  unfolding set_due_date_def getstr_local [OF fits]
  using idx
  by (auto simp: line_head [OF clean] cstr_line [OF clean] todo_at_def todo_put_def Let_def
      zero_tm_def)

lemma three_components_nonempty: "three_components line y m d \<Longrightarrow> line \<noteq> []"
proof
  assume "three_components line y m d" and "line = []"
  then have "sscanf_ymd [] = Some (strtol_int y, strtol_int m, strtol_int d)"
    using sscanf_ymd_complete by blast
  then show False
    by (simp add: sscanf_ymd_def scan_d_def)
qed

text \<open>
  Claim C7, as amended. For every valid index and every input string that fits the
  input buffer of \<^verbatim>\<open>MAX_LENGTH\<close> bytes (at most 127 bytes), \<^verbatim>\<open>set_due_date\<close> with an empty
  input sets the due date of the record to 0; with an input that does not hold three
  numeric components it changes nothing; with an input that holds them, in range or
  not, it stores the time stamp that \<^verbatim>\<open>mktime\<close> makes of year - 1900, month - 1 and
  day. An input holds three numeric components \<open>y\<close>, \<open>m\<close>, \<open>d\<close> when it begins with
  three decimal numbers separated by \<open>-\<close>, each with an optional sign and optional white
  space before it; what follows the digits of the third number is ignored. Every other
  field of the record and every other record stay as they were.
\<close>

theorem set_due_date_spec:
  assumes idx: "in_array (todos s) idx"
    and fits: "length line < MAX_LENGTH" and clean: "NUL \<notin> set line"
  shows "(line = [] \<longrightarrow>
            set_due_date mktime line idx s =
              Some (s\<lparr>todos := (todos s)[nat (sint idx) :=
                (todos s ! nat (sint idx))\<lparr>t_due_date := 0\<rparr>]\<rparr>)) \<and>
         (line \<noteq> [] \<and> (\<forall>y m d. \<not> three_components line y m d) \<longrightarrow>
            set_due_date mktime line idx s = Some s) \<and>
         (\<forall>y m d. three_components line y m d \<longrightarrow>
            set_due_date mktime line idx s =
              Some (s\<lparr>todos := (todos s)[nat (sint idx) :=
                (todos s ! nat (sint idx))\<lparr>t_due_date :=
                   mktime (zero_tm\<lparr>tm_mday := strtol_int d, tm_mon := strtol_int m - 1,
                     tm_year := strtol_int y - 1900\<rparr>)\<rparr>]\<rparr>))"
proof (intro conjI impI allI)
  assume "line = []"
  then show "set_due_date mktime line idx s =
      Some (s\<lparr>todos := (todos s)[nat (sint idx) :=
        (todos s ! nat (sint idx))\<lparr>t_due_date := 0\<rparr>]\<rparr>)"
    using set_due_date_cases [OF assms, of mktime] by blast
next
  assume "line \<noteq> [] \<and> (\<forall>y m d. \<not> three_components line y m d)"
  then have "line \<noteq> []" "sscanf_ymd line = None"
    by (simp_all add: sscanf_ymd_None)
  then show "set_due_date mktime line idx s = Some s"
    using set_due_date_cases [OF assms, of mktime] by blast
next
  fix y m d
  assume three: "three_components line y m d"
  then have "line \<noteq> []" "sscanf_ymd line = Some (strtol_int y, strtol_int m, strtol_int d)"
    by (simp_all add: three_components_nonempty sscanf_ymd_complete)
  then show "set_due_date mktime line idx s =
      Some (s\<lparr>todos := (todos s)[nat (sint idx) :=
        (todos s ! nat (sint idx))\<lparr>t_due_date :=
           mktime (zero_tm\<lparr>tm_mday := strtol_int d, tm_mon := strtol_int m - 1,
             tm_year := strtol_int y - 1900\<rparr>)\<rparr>]\<rparr>)"
    using set_due_date_cases [OF assms, of mktime] by blast
qed

lemma number_digits: "ds \<noteq> [] \<Longrightarrow> list_all isdigit ds \<Longrightarrow> number ds (digits_val ds)"
  unfolding number_def digits_val_decimal by blast

lemma three_components_examples:
  "three_components ''2024-13-45'' 2024 13 45"
  "three_components ''2024-01-15-7'' 2024 1 15"
proof -
  have n: "number ''2024'' 2024" "number ''13'' 13" "number ''45'' 45"
    "number ''01'' 1" "number ''15'' 15"
    using number_digits [of "''2024''"] number_digits [of "''13''"] number_digits [of "''45''"]
      number_digits [of "''01''"] number_digits [of "''15''"]
    by (simp_all add: isdigit_def digits_val_def)
  have b: "blank []"
    by (simp add: blank_def)
  have r: "no_digit_next []" "no_digit_next ''-7''"
    by (simp_all add: no_digit_next_def isdigit_def)
  have "''2024-13-45'' = [] @ ''2024'' @ CHR ''-'' # [] @ ''13'' @ CHR ''-'' # [] @ ''45'' @ []"
    by simp
  then show "three_components ''2024-13-45'' 2024 13 45"
    unfolding three_components_def using n b r by blast
  have "''2024-01-15-7'' = [] @ ''2024'' @ CHR ''-'' # [] @ ''01'' @ CHR ''-'' # [] @ ''15'' @ ''-7''"
    by simp
  then show "three_components ''2024-01-15-7'' 2024 1 15"
    unfolding three_components_def using n b r by blast
qed

lemma no_components_example: "\<forall>y m d. \<not> three_components ''not-a-date'' y m d"
proof -
  have "sscanf_ymd ''not-a-date'' = None"
    by code_simp
  then show ?thesis
    by (simp add: sscanf_ymd_None)
qed

lemma in_array_dated: "in_array (todos ex_dated) 0"
  by (simp add: in_array_def ex_dated_def init_state_def)

theorem set_due_date_spec_witness:
  "in_array (todos ex_dated) 0 \<and> t_due_date (todos ex_dated ! 0) = 86400 \<and>
   map_option (\<lambda>s'. t_due_date (todos s' ! 0)) (set_due_date ex_mktime [] 0 ex_dated) = Some 0 \<and>
   (\<forall>y m d. \<not> three_components ''not-a-date'' y m d) \<and>
   set_due_date ex_mktime ''not-a-date'' 0 ex_dated = Some ex_dated \<and>
   three_components ''2024-13-45'' 2024 13 45 \<and>
   map_option (\<lambda>s'. t_due_date (todos s' ! 0)) (set_due_date ex_mktime ''2024-13-45'' 0 ex_dated) =
     Some (ex_mktime (zero_tm\<lparr>tm_mday := 45, tm_mon := 12, tm_year := 124\<rparr>)) \<and>
   three_components ''2024-01-15-7'' 2024 1 15 \<and>
   map_option (\<lambda>s'. t_due_date (todos s' ! 0)) (set_due_date ex_mktime ''2024-01-15-7'' 0 ex_dated) =
     Some (ex_mktime (zero_tm\<lparr>tm_mday := 15, tm_mon := 0, tm_year := 124\<rparr>))"
proof -
  have due: "t_due_date (todos ex_dated ! 0) = 86400"
    by (simp add: ex_dated_def init_state_def)
  have len: "length (todos ex_dated) = 100"
    by (simp add: ex_dated_def init_state_def)
  have conv: "strtol_int 2024 - 1900 = 124" "strtol_int 13 - 1 = 12" "strtol_int 45 = 45"
    "strtol_int 1 - 1 = 0" "strtol_int 15 = 15"
    by (simp_all add: strtol_int_def)
  have a: "map_option (\<lambda>s'. t_due_date (todos s' ! 0)) (set_due_date ex_mktime [] 0 ex_dated) =
      Some 0"
    using set_due_date_spec [OF in_array_dated, of "[]" ex_mktime] len by simp
  have b: "set_due_date ex_mktime ''not-a-date'' 0 ex_dated = Some ex_dated"
    using set_due_date_spec [OF in_array_dated, of "''not-a-date''" ex_mktime]
      no_components_example by simp
  have c: "map_option (\<lambda>s'. t_due_date (todos s' ! 0))
        (set_due_date ex_mktime ''2024-13-45'' 0 ex_dated) =
      Some (ex_mktime (zero_tm\<lparr>tm_mday := 45, tm_mon := 12, tm_year := 124\<rparr>))"
    using set_due_date_spec [OF in_array_dated, of "''2024-13-45''" ex_mktime]
      three_components_examples(1) len by (simp add: conv)
  have d: "map_option (\<lambda>s'. t_due_date (todos s' ! 0))
        (set_due_date ex_mktime ''2024-01-15-7'' 0 ex_dated) =
      Some (ex_mktime (zero_tm\<lparr>tm_mday := 15, tm_mon := 0, tm_year := 124\<rparr>))"
    using set_due_date_spec [OF in_array_dated, of "''2024-01-15-7''" ex_mktime]
      three_components_examples(2) len by (simp add: conv)
  from in_array_dated due a b c d no_components_example three_components_examples
  show ?thesis
    by blast
qed

text \<open>
  Claim C7 as stated, for every input string, fails: the prompt reads the line with
  \<^verbatim>\<open>getstr\<close> into \<^verbatim>\<open>date_str\<close>, which has \<^verbatim>\<open>MAX_LENGTH\<close> bytes. A line of 200 bytes is
  written past the end of the buffer, and what the code does then is undefined: it
  neither clears, keeps nor stores a due date.
\<close>

theorem set_due_date_long_line_counterexample:
  "in_array (todos ex_dated) 0 \<and> NUL \<notin> set long_line \<and> long_line \<noteq> [] \<and>
   set_due_date ex_mktime long_line 0 ex_dated = None"
  using in_array_dated
  by (simp add: set_due_date_def getstr_def local_buf_def long_line_def)

subsection \<open>The cursor invariant\<close>

lemma strncpy_buf:
  assumes "buf_ok dst" "length src = MAX_LENGTH"
  shows "\<exists>r. strncpy dst src 127 = Some r \<and> buf_ok r"
proof -
  let ?s = "str (take 127 src)"
  have "length ?s \<le> length (take 127 src)"
    unfolding str_def by (rule length_takeWhile_le)
  then have le: "length ?s \<le> 127"
    using assms(2) by simp
  have "strncpy dst src 127 = Some (?s @ replicate (127 - length ?s) NUL @ drop 127 dst)"
    using assms by (simp add: strncpy_def buf_ok_def Let_def)
  moreover have "buf_ok (?s @ replicate (127 - length ?s) NUL @ drop 127 dst)"
    using le by (simp add: drop_127_buf [OF assms(1)] buf_ok_def)
  ultimately show ?thesis by blast
qed

lemma getstr_local_len:
  "length line < MAX_LENGTH \<Longrightarrow> length (line @ NUL # replicate (127 - length line) NUL) = MAX_LENGTH"
  by simp

lemma getstr_buf:
  assumes "buf_ok b" "length line < MAX_LENGTH"
  shows "\<exists>r. getstr b line = Some r \<and> buf_ok r"
proof -
  have len: "length b = 128" and l: "last b = NUL"
    using assms(1) by (simp_all add: buf_ok_def)
  have g: "getstr b line = Some (line @ NUL # drop (Suc (length line)) b)"
    using assms(2) len by (simp add: getstr_def)
  have "last (line @ NUL # drop (Suc (length line)) b) = NUL"
  proof (cases "drop (Suc (length line)) b = []")
    case True
    then show ?thesis by simp
  next
    case False
    then show ?thesis using l by (simp add: last_drop)
  qed
  moreover have "length (line @ NUL # drop (Suc (length line)) b) = 128"
    using assms(2) len by simp
  ultimately show ?thesis
    using g by (simp add: buf_ok_def)
qed

lemma in_array_selected:
  assumes "state_ok s" "selection_ok s" "0 <s todo_count s"
  shows "in_array (todos s) (selected s)"
  using assms state_ok_count [OF assms(1)]
  by (simp add: in_array_iff selection_ok_def state_ok_def word_sless_alt word_sle_eq)

lemma state_ok_put:
  assumes "state_ok s" "in_array (todos s) idx" "todo_ok t"
  shows "state_ok (s\<lparr>todos := (todos s)[nat (sint idx) := t]\<rparr>)"
  using assms
  by (auto simp: state_ok_def list_all_length nth_list_update in_array_def)

lemma selection_ok_todos: "selection_ok (s\<lparr>todos := ts\<rparr>) = selection_ok s"
  by (simp add: selection_ok_def)

lemma todo_ok_at:
  "state_ok s \<Longrightarrow> in_array (todos s) idx \<Longrightarrow> todo_ok (todos s ! nat (sint idx))"
  by (simp add: state_ok_def list_all_length in_array_def)

lemma toggle_todo_ok:
  assumes "state_ok s" "in_array (todos s) idx"
  shows "\<exists>s'. toggle_todo idx s = Some s' \<and> state_ok s' \<and> selection_ok s' = selection_ok s"
proof -
  let ?t = "(todos s ! nat (sint idx))\<lparr>t_done := (if t_done (todos s ! nat (sint idx)) = 0 then 1 else 0)\<rparr>"
  have "todo_ok ?t"
    using todo_ok_at [OF assms] by (simp add: todo_ok_def)
  from state_ok_put [OF assms this] assms(2) show ?thesis
    by (simp add: toggle_todo_def todo_at_def todo_put_def selection_ok_todos)
qed

lemma edit_todo_ok:
  assumes "state_ok s" "in_array (todos s) idx" "length line < MAX_LENGTH"
  shows "\<exists>s'. edit_todo line idx s = Some s' \<and> state_ok s' \<and> selection_ok s' = selection_ok s"
proof (cases "(line @ NUL # replicate (127 - length line) NUL) ! 0 = NUL")
  case True
  then show ?thesis
    using assms(1) by (simp add: edit_todo_def getstr_local [OF assms(3)])
next
  case False
  have "buf_ok (t_text (todos s ! nat (sint idx)))"
    using todo_ok_at [OF assms(1,2)] by (simp add: todo_ok_def)
  from strncpy_buf [OF this getstr_local_len [OF assms(3)]]
  obtain r where r: "strncpy (t_text (todos s ! nat (sint idx)))
      (line @ NUL # replicate (127 - length line) NUL) 127 = Some r" "buf_ok r"
    by blast
  have "todo_ok ((todos s ! nat (sint idx))\<lparr>t_text := r\<rparr>)"
    using todo_ok_at [OF assms(1,2)] r(2) by (simp add: todo_ok_def)
  from state_ok_put [OF assms(1,2) this] False r(1) assms(2) show ?thesis
    by (simp add: edit_todo_def getstr_local [OF assms(3)] todo_at_def todo_put_def
        selection_ok_todos)
qed

lemma set_category_ok:
  assumes "state_ok s" "in_array (todos s) idx" "length line < MAX_LENGTH"
  shows "\<exists>s'. set_category line idx s = Some s' \<and> state_ok s' \<and> selection_ok s' = selection_ok s"
proof -
  have "buf_ok (t_category (todos s ! nat (sint idx)))"
    using todo_ok_at [OF assms(1,2)] by (simp add: todo_ok_def)
  from strncpy_buf [OF this getstr_local_len [OF assms(3)]]
  obtain r where r: "strncpy (t_category (todos s ! nat (sint idx)))
      (line @ NUL # replicate (127 - length line) NUL) 127 = Some r" "buf_ok r"
    by blast
  have "todo_ok ((todos s ! nat (sint idx))\<lparr>t_category := r\<rparr>)"
    using todo_ok_at [OF assms(1,2)] r(2) by (simp add: todo_ok_def)
  from state_ok_put [OF assms(1,2) this] r(1) assms(2) show ?thesis
    by (simp add: set_category_def getstr_local [OF assms(3)] todo_at_def todo_put_def
        selection_ok_todos)
qed

lemma set_due_date_ok:
  assumes "state_ok s" "in_array (todos s) idx" "length line < MAX_LENGTH"
  shows "\<exists>s'. set_due_date mktime line idx s = Some s' \<and> state_ok s' \<and>
           selection_ok s' = selection_ok s"
proof -
  have due: "state_ok (s\<lparr>todos := (todos s)[nat (sint idx) :=
      (todos s ! nat (sint idx))\<lparr>t_due_date := d\<rparr>]\<rparr>)" for d
    using todo_ok_at [OF assms(1,2)]
    by (intro state_ok_put [OF assms(1,2)]) (simp add: todo_ok_def)
  have "cstr (line @ NUL # replicate (127 - length line) NUL) \<noteq> None"
    by (simp add: cstr_def)
  then obtain inp where inp: "cstr (line @ NUL # replicate (127 - length line) NUL) = Some inp"
    by blast
  show ?thesis
    unfolding set_due_date_def getstr_local [OF assms(3)]
    using assms(1,2) due inp
    by (simp add: todo_at_def todo_put_def selection_ok_todos Let_def split: option.split)
qed

lemma buf_ok_clear: "buf_ok b \<Longrightarrow> buf_ok (b[0 := NUL])"
proof -
  assume ok: "buf_ok b"
  then have "b[0 := NUL] \<noteq> []" by (auto simp: buf_ok_def)
  then have "last (b[0 := NUL]) = b[0 := NUL] ! (length (b[0 := NUL]) - 1)"
    by (rule last_conv_nth)
  also have "\<dots> = b ! (length b - 1)"
    using ok by (simp add: buf_ok_def)
  also have "\<dots> = last b"
    using ok by (subst last_conv_nth) (auto simp: buf_ok_def)
  finally show ?thesis
    using ok by (simp add: buf_ok_def)
qed

lemma add_todo_ok:
  assumes ok: "state_ok s" and fits: "length line < MAX_LENGTH"
  shows "\<exists>s'. add_todo line s = Some s' \<and> state_ok s' \<and> selection_ok s'
           \<or> add_todo line s = Some s"
proof (cases "(line @ NUL # replicate (127 - length line) NUL) ! 0 \<noteq> NUL \<and>
    todo_count s <s MAX_TODOS")
  case False
  then show ?thesis
    by (auto simp: add_todo_def getstr_local [OF fits])
next
  case True
  let ?n = "nat (sint (todo_count s))"
  from True have lt: "sint (todo_count s) < 100"
    by (simp add: word_sless_alt)
  then have arr: "in_array (todos s) (todo_count s)"
    using state_ok_count [OF ok] ok by (simp add: in_array_iff state_ok_def)
  have t: "todo_ok (todos s ! ?n)"
    using todo_ok_at [OF ok arr] .
  then have "buf_ok (t_text (todos s ! ?n))"
    by (simp add: todo_ok_def)
  from strncpy_buf [OF this getstr_local_len [OF fits]]
  obtain r where r: "strncpy (t_text (todos s ! ?n))
      (line @ NUL # replicate (127 - length line) NUL) 127 = Some r" "buf_ok r"
    by blast
  let ?t = "(todos s ! ?n)\<lparr>t_text := r, t_category := (t_category (todos s ! ?n))[0 := NUL],
      t_due_date := 0, t_done := 0\<rparr>"
  have "buf_ok ((t_category (todos s ! ?n))[0 := NUL])"
    using t by (simp add: todo_ok_def buf_ok_clear)
  then have "todo_ok ?t"
    using r(2) by (simp add: todo_ok_def)
  from state_ok_put [OF ok arr this]
  have ok1: "state_ok (s\<lparr>todos := (todos s)[?n := ?t]\<rparr>)" .
  have inc: "sint (todo_count s + 1) = sint (todo_count s) + 1"
    using lt sint_succ [of "todo_count s" 100] by simp
  let ?s' = "s\<lparr>todos := (todos s)[?n := ?t], todo_count := todo_count s + 1,
      selected := todo_count s\<rparr>"
  have res: "add_todo line s = Some ?s'"
    using True arr r(1)
    by (simp add: add_todo_def getstr_local [OF fits] todo_at_def todo_put_def)
  have "state_ok ?s'"
    using ok1 inc lt state_ok_count [OF ok] by (simp add: state_ok_def word_sle_eq)
  moreover have "selection_ok ?s'"
    using inc state_ok_count [OF ok] by (simp add: selection_ok_def word_sle_eq word_sless_alt)
  ultimately show ?thesis
    using res by blast
qed

lemma delete_todo_ok:
  assumes ok: "state_ok s" and sel: "selection_ok s" and some: "0 <s todo_count s"
  shows "\<exists>s'. delete_todo (selected s) s = Some s' \<and> state_ok s' \<and> selection_ok s'"
proof -
  let ?n = "nat (sint (todo_count s))" and ?i = "nat (sint (selected s))"
  have cnt: "0 < sint (todo_count s)" "sint (todo_count s) \<le> 100"
    using some state_ok_count [OF ok] by (simp_all add: word_sless_alt)
  have valid: "0 \<le> sint (selected s)" "sint (selected s) < sint (todo_count s)"
    using sel some by (simp_all add: selection_ok_def word_sless_alt word_sle_eq)
  have len: "length (todos s) = 100"
    using ok by (simp add: state_ok_def)
  have "sint (todo_count s) = int ?n" "1 \<le> ?n" "?n \<le> length (todos s)"
    "sint (selected s) = int ?i" "?i < ?n"
    using cnt valid len by simp_all
  note facts = this
  from delete_todo_shift [OF facts] obtain ts'
    where loop: "delete_loop (selected s) (todo_count s) (todos s) = Some ts'"
      and d: "delete_todo (selected s) s =
          Some (s\<lparr>todos := ts', todo_count := todo_count s - 1,
                  selected := (if todo_count s - 1 \<le>s selected s \<and> 0 <s selected s
                               then selected s - 1 else selected s)\<rparr>)"
      and c: "sint (todo_count s - 1) = int ?n - 1" and l: "length ts' = length (todos s)"
    by blast
  define s' where "s' = s\<lparr>todos := ts', todo_count := todo_count s - 1,
      selected := (if todo_count s - 1 \<le>s selected s \<and> 0 <s selected s
                   then selected s - 1 else selected s)\<rparr>"
  have so: "selection_ok s'"
    unfolding s'_def using facts(1,2) sel by (rule delete_todo_cursor(3))
  from delete_loop_shift [of "selected s" "todo_count s" "todos s"] valid cnt len loop
  have nth: "\<forall>j < length (todos s). ts' ! j =
      (if ?i \<le> j \<and> j < ?n - 1 then todos s ! Suc j else todos s ! j)"
    by simp
  have all: "\<forall>j < 100. todo_ok (todos s ! j)"
    using ok by (simp add: state_ok_def list_all_length)
  have "todo_ok (ts' ! j)" if "j < 100" for j
  proof (cases "?i \<le> j \<and> j < ?n - 1")
    case True
    then have "Suc j < 100" using cnt by linarith
    then have "todo_ok (todos s ! Suc j)" using all by blast
    then show ?thesis using nth that len True by simp
  next
    case False
    then have "ts' ! j = todos s ! j" using nth that len by auto
    then show ?thesis using all that by simp
  qed
  then have "list_all todo_ok ts'"
    using l len by (simp add: list_all_length)
  then have "state_ok s'"
    using ok c l cnt by (simp add: state_ok_def s'_def word_sle_eq)
  with d so show ?thesis
    unfolding s'_def by blast
qed

lemma filter_by_category_ok:
  assumes "state_ok s" "length line < MAX_LENGTH"
  shows "\<exists>s'. filter_by_category line s = Some s' \<and> state_ok s' \<and> selection_ok s'"
proof -
  from assms(1) have "buf_ok (filter_category s)"
    by (simp add: state_ok_def)
  from getstr_buf [OF this assms(2)] obtain r
    where "getstr (filter_category s) line = Some r" "buf_ok r" by blast
  then show ?thesis
    using assms(1)
    by (simp add: filter_by_category_def state_ok_def selection_ok_def word_sle_eq word_sless_alt)
qed

lemma search_todos_ok:
  assumes "state_ok s" "length line < MAX_LENGTH"
  shows "\<exists>s'. search_todos line s = Some s' \<and> state_ok s' \<and> selection_ok s'"
proof -
  from assms(1) have "buf_ok (search_term s)"
    by (simp add: state_ok_def)
  from getstr_buf [OF this assms(2)] obtain r
    where "getstr (search_term s) line = Some r" "buf_ok r" by blast
  then show ?thesis
    using assms(1)
    by (simp add: search_todos_def state_ok_def selection_ok_def word_sle_eq word_sless_alt)
qed

lemma filter_by_status_ok:
  "state_ok s \<Longrightarrow> state_ok (filter_by_status s) \<and> selection_ok (filter_by_status s)"
  by (simp add: filter_by_status_def state_ok_def selection_ok_def word_sle_eq word_sless_alt)

lemma reset_filters_ok:
  "state_ok s \<Longrightarrow> selection_ok s \<Longrightarrow>
   state_ok (reset_filters s) \<and> selection_ok (reset_filters s)"
  by (simp add: reset_filters_def state_ok_def selection_ok_def buf_ok_clear)

lemma move_down_ok:
  assumes "state_ok s" "selection_ok s"
  shows "state_ok (if selected s <s todo_count s - 1 then s\<lparr>selected := selected s + 1\<rparr> else s) \<and>
     selection_ok (if selected s <s todo_count s - 1 then s\<lparr>selected := selected s + 1\<rparr> else s)"
proof (cases "selected s <s todo_count s - 1")
  case False
  then show ?thesis using assms by simp
next
  case True
  have "0 \<le> sint (todo_count s)"
    using state_ok_count [OF assms(1)] by simp
  then have nonneg: "sint (todo_count s - 1) = sint (todo_count s) - 1"
    using sint_pred [of "- 1" "todo_count s"] by simp
  with True have lt: "sint (selected s) < sint (todo_count s) - 1"
    by (simp add: word_sless_alt)
  then have inc: "sint (selected s + 1) = sint (selected s) + 1"
    using sint_succ [of "selected s" "todo_count s"] by simp
  show ?thesis
    using True assms lt inc
    by (simp add: state_ok_def selection_ok_def word_sle_eq word_sless_alt)
qed

lemma move_up_ok:
  assumes "state_ok s" "selection_ok s"
  shows "state_ok (if 0 <s selected s then s\<lparr>selected := selected s - 1\<rparr> else s) \<and>
     selection_ok (if 0 <s selected s then s\<lparr>selected := selected s - 1\<rparr> else s)"
proof (cases "0 <s selected s")
  case False
  then show ?thesis using assms by simp
next
  case True
  then have "sint (selected s - 1) = sint (selected s) - 1"
    using sint_pred [of 0 "selected s"] by (simp add: word_sless_alt)
  then show ?thesis
    using True assms
    by (auto simp: state_ok_def selection_ok_def word_sle_eq word_sless_alt)
qed

lemma dispatch_keys:
  "dispatch mktime (key CHR ''j'') line s =
     Some (if selected s <s todo_count s - 1 then s\<lparr>selected := selected s + 1\<rparr> else s)"
  "dispatch mktime KEY_DOWN line s =
     Some (if selected s <s todo_count s - 1 then s\<lparr>selected := selected s + 1\<rparr> else s)"
  "dispatch mktime (key CHR ''k'') line s =
     Some (if 0 <s selected s then s\<lparr>selected := selected s - 1\<rparr> else s)"
  "dispatch mktime KEY_UP line s =
     Some (if 0 <s selected s then s\<lparr>selected := selected s - 1\<rparr> else s)"
  "dispatch mktime (key CHR ''a'') line s = add_todo line s"
  "dispatch mktime (key CHR ''d'') line s =
     (if 0 <s todo_count s then delete_todo (selected s) s else Some s)"
  "dispatch mktime (key CHR '' '') line s =
     (if 0 <s todo_count s then toggle_todo (selected s) s else Some s)"
  "dispatch mktime (key CHR ''e'') line s =
     (if 0 <s todo_count s then edit_todo line (selected s) s else Some s)"
  "dispatch mktime (key CHR ''D'') line s =
     (if 0 <s todo_count s then set_due_date mktime line (selected s) s else Some s)"
  "dispatch mktime (key CHR ''c'') line s =
     (if 0 <s todo_count s then set_category line (selected s) s else Some s)"
  by (simp_all add: dispatch_def key_def KEY_DOWN_def KEY_UP_def)

lemma dispatch_ok:
  assumes ok: "state_ok s" and sel: "selection_ok s" and fits: "length line < MAX_LENGTH"
  shows "\<exists>s'. dispatch mktime ch line s = Some s' \<and> state_ok s' \<and> selection_ok s'"
proof -
  define good where "good r \<longleftrightarrow> (\<exists>s'. r = Some s' \<and> state_ok s' \<and> selection_ok s')"
    for r :: "state option"
  have same: "good (Some s)"
    using ok sel by (simp add: good_def)
  have down: "good (Some (if selected s <s todo_count s - 1
                          then s\<lparr>selected := selected s + 1\<rparr> else s))"
    using move_down_ok [OF ok sel] by (simp add: good_def)
  have up: "good (Some (if 0 <s selected s then s\<lparr>selected := selected s - 1\<rparr> else s))"
    using move_up_ok [OF ok sel] by (simp add: good_def)
  have add: "good (add_todo line s)"
    using add_todo_ok [OF ok fits] ok sel by (auto simp: good_def)
  have del: "0 <s todo_count s \<Longrightarrow> good (delete_todo (selected s) s)"
    using delete_todo_ok [OF ok sel] by (simp add: good_def)
  have toggle: "0 <s todo_count s \<Longrightarrow> good (toggle_todo (selected s) s)"
    using toggle_todo_ok [OF ok in_array_selected [OF ok sel]] sel by (auto simp: good_def)
  have edit: "0 <s todo_count s \<Longrightarrow> good (edit_todo line (selected s) s)"
    using edit_todo_ok [OF ok in_array_selected [OF ok sel] fits] sel by (auto simp: good_def)
  have due: "0 <s todo_count s \<Longrightarrow> good (set_due_date mktime line (selected s) s)"
    using set_due_date_ok [OF ok in_array_selected [OF ok sel] fits] sel
    by (auto simp: good_def)
  have cat: "0 <s todo_count s \<Longrightarrow> good (set_category line (selected s) s)"
    using set_category_ok [OF ok in_array_selected [OF ok sel] fits] sel
    by (auto simp: good_def)
  have fcat: "good (filter_by_category line s)"
    using filter_by_category_ok [OF ok fits] by (simp add: good_def)
  have fstat: "good (Some (filter_by_status s))"
    using filter_by_status_ok [OF ok] by (simp add: good_def)
  have search: "good (search_todos line s)"
    using search_todos_ok [OF ok fits] by (simp add: good_def)
  have reset: "good (Some (reset_filters s))"
    using reset_filters_ok [OF ok sel] by (simp add: good_def)
  have del': "good (if 0 <s todo_count s then delete_todo (selected s) s else Some s)"
    and toggle': "good (if 0 <s todo_count s then toggle_todo (selected s) s else Some s)"
    and edit': "good (if 0 <s todo_count s then edit_todo line (selected s) s else Some s)"
    and due': "good (if 0 <s todo_count s then set_due_date mktime line (selected s) s
                     else Some s)"
    and cat': "good (if 0 <s todo_count s then set_category line (selected s) s else Some s)"
    using del toggle edit due cat same by simp_all
  have "good (dispatch mktime ch line s)"
  proof (cases "ch \<in> {key CHR ''j'', KEY_DOWN, key CHR ''k'', KEY_UP, key CHR ''a'',
      key CHR ''d'', key CHR '' '', key CHR ''e'', key CHR ''D'', key CHR ''c'', key CHR ''C'',
      key CHR ''f'', key CHR ''/'', key CHR ''r''}")
    case False
    then have "dispatch mktime ch line s = Some s"
      by (simp add: dispatch_def)
    then show ?thesis
      using same by simp
  next
    case True
    then show ?thesis
      using down up add del' toggle' edit' due' cat' fcat fstat search reset
      by (auto simp: dispatch_keys dispatch_filter_keys)
  qed
  then show ?thesis
    by (simp add: good_def)
qed

text \<open>
  Claim C9. Every operation reachable from the key loop preserves the invariant of the
  selection: whenever the count is positive, the selection is an index of the
  unfiltered store, in \<open>[0, count-1]\<close>; when the count is 0 it may be anything. From a
  well-formed state that satisfies the invariant, and with a line that fits the input
  buffer, every key returns a well-formed state that satisfies it.
\<close>

theorem selection_invariant:
  assumes "state_ok s" and "selection_ok s" and "length line < MAX_LENGTH"
  shows "\<exists>s'. dispatch mktime ch line s = Some s' \<and> state_ok s' \<and>
           (0 < sint (todo_count s') \<longrightarrow>
              0 \<le> sint (selected s') \<and> sint (selected s') \<le> sint (todo_count s') - 1)"
  using dispatch_ok [OF assms, of mktime ch]
  by (auto simp: selection_ok_def word_sless_alt word_sle_eq)

lemma todo_ok_examples: "todo_ok ex_todo" "todo_ok ex_todo2"
  by (simp_all add: todo_ok_def ex_todo_def ex_todo2_def buf_ok_buf_of)

lemma state_ok_two: "state_ok ex_two"
  using todo_ok_examples
  by (simp add: state_ok_def ex_two_def init_state_def list_all_length nth_list_update
      word_sle_eq todo_ok_zero buf_ok_zero)

theorem selection_invariant_witness:
  "state_ok ex_two \<and> selection_ok ex_two \<and> length ''x'' < (MAX_LENGTH :: nat) \<and>
   (\<exists>s'. dispatch ex_mktime (key CHR ''d'') ''x'' ex_two = Some s' \<and> state_ok s' \<and>
      (0 < sint (todo_count s') \<longrightarrow>
         0 \<le> sint (selected s') \<and> sint (selected s') \<le> sint (todo_count s') - 1))"
proof -
  have fits: "length ''x'' < (MAX_LENGTH :: nat)"
    by simp
  from selection_invariant [OF state_ok_two selection_ok_two fits] state_ok_two
    selection_ok_two fits
  show ?thesis
    by blast
qed

text \<open>The invariant along a whole session: any sequence of keys up to \<^verbatim>\<open>q\<close>.\<close>

lemma run_ok:
  "state_ok s \<Longrightarrow> selection_ok s \<Longrightarrow> list_all (\<lambda>ev. length (snd ev) < MAX_LENGTH) evs \<Longrightarrow>
   \<exists>s'. run mktime evs s = Some s' \<and> state_ok s' \<and> selection_ok s'"
proof (induction evs arbitrary: s)
  case Nil
  then show ?case by simp
next
  case (Cons ev evs)
  obtain ch line where ev: "ev = (ch, line)"
    by (cases ev)
  show ?case
  proof (cases "ch = key CHR ''q''")
    case True
    then show ?thesis using Cons.prems ev by simp
  next
    case False
    from Cons.prems ev have "length line < MAX_LENGTH"
      by simp
    from dispatch_ok [OF Cons.prems(1,2) this, of mktime ch]
    obtain s1 where s1: "dispatch mktime ch line s = Some s1" "state_ok s1" "selection_ok s1"
      by blast
    from Cons.IH [OF s1(2,3)] Cons.prems(3) s1(1) False ev show ?thesis
      by simp
  qed
qed

subsection \<open>The file format\<close>

lemma length_le_bytes: "length (le_bytes k v) = k"
  by (induction k arbitrary: v) simp_all

lemma le_val_le_bytes: "le_val (le_bytes k v) = v mod 256 ^ k"
proof (induction k arbitrary: v)
  case 0
  then show ?case by simp
next
  case (Suc k)
  have "v mod 256 + 256 * (v div 256 mod 256 ^ k) = v mod (256 * 256 ^ k)"
    by (simp add: mod_mult2_eq)
  then show ?case
    using Suc by simp
qed

lemma decode_encode_int: "decode_int (encode_int w @ rest) = w"
proof -
  have "unat w < 2 ^ 32"
    using unsigned_less [of w, where ?'a = nat] by simp
  then have "unat w mod 256 ^ 4 = unat w"
    by simp
  then show ?thesis
    by (simp add: decode_int_def encode_int_def length_le_bytes le_val_le_bytes)
qed

lemma length_encode_todo: "todo_sized t \<Longrightarrow> length (encode_todo t) = sizeof_Todo"
  by (simp add: encode_todo_def todo_sized_def sizeof_Todo_def length_le_bytes)

lemma decode_encode_todo:
  assumes "todo_sized t"
  shows "decode_todo (encode_todo t @ rest) = t"
proof -
  have "unat (t_due_date t) < 2 ^ 64" "unat (t_done t) < 2 ^ 32" "unat (t_padding t) < 2 ^ 32"
    using unsigned_less [of "t_due_date t", where ?'a = nat]
      unsigned_less [of "t_done t", where ?'a = nat]
      unsigned_less [of "t_padding t", where ?'a = nat] by simp_all
  then have "unat (t_due_date t) mod 256 ^ 8 = unat (t_due_date t)"
    "unat (t_done t) mod 256 ^ 4 = unat (t_done t)"
    "unat (t_padding t) mod 256 ^ 4 = unat (t_padding t)"
    by simp_all
  then show ?thesis
    using assms
    by (simp add: decode_todo_def encode_todo_def todo_sized_def length_le_bytes le_val_le_bytes)
qed

lemma requested_bytes:
  assumes "0 \<le> sint (cnt :: c_int)" "sint cnt \<le> 100"
  shows "unat (of_nat sizeof_Todo * (scast cnt :: 64 word)) = sizeof_Todo * nat (sint cnt)"
proof -
  let ?m = "sizeof_Todo * nat (sint cnt)"
  have sc: "(scast cnt :: 64 word) = of_nat (nat (sint cnt))"
    using assms(1) by (simp only: scast_eq word_of_int_nat)
  have eq: "of_nat sizeof_Todo * (scast cnt :: 64 word) = of_nat ?m"
    by (simp only: sc of_nat_mult)
  have "nat (sint cnt) \<le> 100"
    using assms by simp
  then have "?m \<le> 272 * 100"
    unfolding sizeof_Todo_def by simp
  also have "\<dots> < (2 :: nat) ^ 64"
    by simp
  finally have small: "?m < 2 ^ LENGTH(64)"
    by simp
  have "unat (of_nat ?m :: 64 word) = ?m mod 2 ^ LENGTH(64)"
    by (rule unat_of_nat)
  also have "\<dots> = ?m"
    using small by (rule mod_less)
  finally show ?thesis
    by (simp only: eq)
qed

lemma decode_todo_prefix:
  "length e = sizeof_Todo \<Longrightarrow> decode_todo (e @ rest) = decode_todo e"
  by (simp add: decode_todo_def sizeof_Todo_def)

lemma fread_todos_element:
  assumes "length e = sizeof_Todo"
  shows "fread_todos (e @ rest) (t # ts) =
     map_option (Cons (decode_todo e)) (fread_todos rest ts)"
proof -
  from assms obtain b bs where e: "e = b # bs"
    by (cases e) (simp_all add: sizeof_Todo_def)
  have step: "fread_todos (e @ rest) (t # ts) =
      map_option (Cons (decode_todo (overlay (take sizeof_Todo (e @ rest)) (encode_todo t))))
        (fread_todos (drop sizeof_Todo (e @ rest)) ts)"
    unfolding e by simp
  have tk: "take sizeof_Todo (e @ rest) = e" and dr: "drop sizeof_Todo (e @ rest) = rest"
    using assms by simp_all
  have "overlay e (encode_todo t) = e @ drop (length e) (encode_todo t)"
    by (simp add: overlay_def)
  then have dec: "decode_todo (overlay e (encode_todo t)) = decode_todo e"
    using assms by (simp add: decode_todo_prefix)
  show ?thesis
    by (simp only: step tk dr dec)
qed

lemma fread_todos_records:
  "list_all todo_sized xs \<Longrightarrow> length xs \<le> length ts \<Longrightarrow>
   fread_todos (concat (map encode_todo xs)) ts = Some (xs @ drop (length xs) ts)"
proof (induction xs arbitrary: ts)
  case Nil
  then show ?case by simp
next
  case (Cons x xs)
  then obtain t ts' where ts: "ts = t # ts'"
    by (cases ts) simp_all
  from Cons.prems have x: "todo_sized x"
    by simp
  have "fread_todos (encode_todo x @ concat (map encode_todo xs)) (t # ts') =
      map_option (Cons (decode_todo (encode_todo x))) (fread_todos (concat (map encode_todo xs)) ts')"
    by (rule fread_todos_element) (rule length_encode_todo [OF x])
  moreover have "decode_todo (encode_todo x) = x"
    using decode_encode_todo [OF x, of "[]"] by simp
  ultimately show ?case
    using Cons ts by simp
qed


lemma length_encode_int: "length (encode_int w) = 4"
  by (simp add: encode_int_def length_le_bytes)

lemma length_records:
  "list_all todo_sized xs \<Longrightarrow> length (concat (map encode_todo xs)) = sizeof_Todo * length xs"
  by (induction xs) (simp_all add: length_encode_todo)

text \<open>
  Claim C3. For every store \<open>S\<close> whose count is at most the capacity (100) and whose
  records have buffers of the declared length, loading the file that saving \<open>S\<close>
  writes reproduces \<open>S\<close>: the loaded count is the count of \<open>S\<close> and every loaded record
  equals the record of \<open>S\<close> at the same index, byte for byte.
\<close>

theorem save_load_roundtrip:
  assumes sized: "store_sized S" and slots: "length (todos s0) = MAX_TODOS"
  shows "\<exists>f s'. save_todos True S old = Some (Some f) \<and>
           load_todos (Some f) s0 = Some s' \<and>
           todo_count s' = todo_count S \<and>
           (\<forall>i < nat (sint (todo_count S)). todos s' ! i = todos S ! i)"
proof -
  let ?n = "nat (sint (todo_count S))"
  let ?xs = "take ?n (todos S)"
  let ?body = "concat (map encode_todo ?xs)"
  let ?f = "encode_int (todo_count S) @ ?body"
  have cnt: "0 \<le> sint (todo_count S)" "sint (todo_count S) \<le> 100"
    using sized by (simp_all add: store_sized_def word_sle_eq)
  have len: "length (todos S) = 100" and all: "list_all todo_sized (todos S)"
    using sized by (simp_all add: store_sized_def)
  have n: "?n \<le> 100"
    using cnt by simp
  have xs: "list_all todo_sized ?xs" "length ?xs = ?n"
    using all len n by (simp_all add: list_all_length)
  have save: "save_todos True S old = Some (Some ?f)"
    using cnt len by (simp add: save_todos_def word_sle_eq)
  have header: "decode_int (overlay (take 4 ?f) (encode_int (todo_count s0))) = todo_count S"
    using decode_encode_int [of "todo_count S" "[]"]
    by (simp add: overlay_def length_encode_int)
  have body: "take (sizeof_Todo * ?n) (drop 4 ?f) = ?body"
    using length_records [OF xs(1)] xs(2) by (simp add: length_encode_int)
  have "fread_todos ?body (todos s0) = Some (?xs @ drop (length ?xs) (todos s0))"
    using xs slots n by (intro fread_todos_records) simp_all
  then have load: "load_todos (Some ?f) s0 =
      Some (s0\<lparr>todo_count := todo_count S, todos := ?xs @ drop ?n (todos s0)\<rparr>)"
    unfolding load_todos_def
    by (simp only: option.case Let_def header requested_bytes [OF cnt] body xs(2)) simp
  have "(?xs @ drop ?n (todos s0)) ! i = todos S ! i" if "i < ?n" for i
    using that xs(2) by (simp add: nth_append)
  then show ?thesis
    using save load by simp
qed

lemma state_ok_sized: "state_ok s \<Longrightarrow> store_sized s"
  by (auto simp: state_ok_def store_sized_def list_all_length todo_ok_def todo_sized_def
      buf_ok_def)

theorem save_load_roundtrip_witness:
  "store_sized ex_two \<and> length (todos init_state) = MAX_TODOS \<and>
   (\<exists>f s'. save_todos True ex_two None = Some (Some f) \<and>
      load_todos (Some f) init_state = Some s' \<and> todo_count s' = 2 \<and>
      todos s' ! 0 = ex_todo \<and> todos s' ! 1 = ex_todo2)"
proof -
  have sized: "store_sized ex_two"
    using state_ok_two by (rule state_ok_sized)
  have slots: "length (todos init_state) = MAX_TODOS"
    by (simp add: init_state_def)
  have two: "todo_count ex_two = 2" "todos ex_two ! 0 = ex_todo" "todos ex_two ! 1 = ex_todo2"
    by (simp_all add: ex_two_def init_state_def)
  from save_load_roundtrip [OF sized slots, of None] two
  have "\<exists>f s'. save_todos True ex_two None = Some (Some f) \<and>
      load_todos (Some f) init_state = Some s' \<and> todo_count s' = 2 \<and>
      todos s' ! 0 = ex_todo \<and> todos s' ! 1 = ex_todo2"
    by auto
  with sized slots show ?thesis
    by blast
qed

subsection \<open>Loading a short file\<close>

lemma fread_todos_short:
  "length bs \<le> sizeof_Todo * length ts \<Longrightarrow>
   \<exists>ts'. fread_todos bs ts = Some ts' \<and> length ts' = length ts \<and>
     (\<forall>j < length ts. length bs \<le> sizeof_Todo * j \<longrightarrow> ts' ! j = ts ! j) \<and>
     (\<forall>j. sizeof_Todo * Suc j \<le> length bs \<longrightarrow>
        ts' ! j = decode_todo (take sizeof_Todo (drop (sizeof_Todo * j) bs)))"
proof (induction ts arbitrary: bs)
  case Nil
  then show ?case by (simp add: sizeof_Todo_def)
next
  case (Cons t ts)
  show ?case
  proof (cases bs)
    case Nil
    then show ?thesis by (simp add: sizeof_Todo_def)
  next
    case (Cons b bs')
    let ?e = "take sizeof_Todo bs" and ?rest = "drop sizeof_Todo bs"
    have "length ?rest \<le> sizeof_Todo * length ts"
      using Cons.prems by simp
    from Cons.IH [OF this] obtain ts' where r: "fread_todos ?rest ts = Some ts'"
      and len: "length ts' = length ts"
      and keep: "\<And>j. j < length ts \<Longrightarrow> length ?rest \<le> sizeof_Todo * j \<Longrightarrow> ts' ! j = ts ! j"
      and got: "\<And>j. sizeof_Todo * Suc j \<le> length ?rest \<Longrightarrow>
          ts' ! j = decode_todo (take sizeof_Todo (drop (sizeof_Todo * j) ?rest))"
      by blast
    let ?d = "decode_todo (overlay ?e (encode_todo t))"
    have res: "fread_todos bs (t # ts) = Some (?d # ts')"
      using r unfolding Cons by simp
    have head: "?d = decode_todo ?e" if "sizeof_Todo \<le> length bs"
    proof -
      have "length ?e = sizeof_Todo" using that by simp
      then show ?thesis
        unfolding overlay_def by (rule decode_todo_prefix)
    qed
    have pos: "0 < length bs"
      using Cons by simp
    have a: "(?d # ts') ! j = (t # ts) ! j"
      if "j < length (t # ts)" "length bs \<le> sizeof_Todo * j" for j
    proof (cases j)
      case 0
      then show ?thesis using that pos by simp
    next
      case (Suc k)
      then have "k < length ts" "length ?rest \<le> sizeof_Todo * k"
        using that by simp_all
      from keep [OF this] Suc show ?thesis by simp
    qed
    have b: "(?d # ts') ! j = decode_todo (take sizeof_Todo (drop (sizeof_Todo * j) bs))"
      if "sizeof_Todo * Suc j \<le> length bs" for j
    proof (cases j)
      case 0
      then show ?thesis using that head by simp
    next
      case (Suc k)
      then have "sizeof_Todo * Suc k \<le> length ?rest"
        using that by simp
      from got [OF this] Suc show ?thesis
        by (simp add: add.commute)
    qed
    show ?thesis
      using res len a b by simp
  qed
qed

lemma load_empty: "load_todos (Some []) s = Some s"
proof -
  have "decode_int (overlay (take 4 []) (encode_int (todo_count s))) = todo_count s"
    using decode_encode_int [of "todo_count s" "[]"] by (simp add: overlay_def)
  then show ?thesis
    by (simp add: load_todos_def)
qed

lemma load_header:
  assumes hdr: "4 \<le> length bytes"
    and cnt: "0 \<le> sint (decode_int bytes)" "sint (decode_int bytes) \<le> MAX_TODOS"
    and slots: "length (todos s) = MAX_TODOS"
  shows "\<exists>s'. load_todos (Some bytes) s = Some s' \<and> todo_count s' = decode_int bytes \<and>
     length (todos s') = length (todos s) \<and>
     (\<forall>j < MAX_TODOS. length bytes - 4 \<le> sizeof_Todo * j \<longrightarrow> todos s' ! j = todos s ! j) \<and>
     (\<forall>j < nat (sint (decode_int bytes)). 4 + sizeof_Todo * Suc j \<le> length bytes \<longrightarrow>
        todos s' ! j = decode_todo (take sizeof_Todo (drop (4 + sizeof_Todo * j) bytes)))"
proof -
  let ?c = "decode_int bytes" and ?n = "nat (sint (decode_int bytes))"
  let ?got = "take (sizeof_Todo * ?n) (drop 4 bytes)"
  have "overlay (take 4 bytes) (encode_int (todo_count s)) = take 4 bytes"
    using hdr by (simp add: overlay_def length_encode_int)
  then have header: "decode_int (overlay (take 4 bytes) (encode_int (todo_count s))) = ?c"
    by (simp add: decode_int_def)
  have n: "?n \<le> 100"
    using cnt by simp
  have "length ?got \<le> sizeof_Todo * ?n"
    by simp
  also have "\<dots> \<le> sizeof_Todo * length (todos s)"
    using n slots by simp
  finally have "length ?got \<le> sizeof_Todo * length (todos s)" .
  from fread_todos_short [OF this] obtain ts' where r: "fread_todos ?got (todos s) = Some ts'"
    and len: "length ts' = length (todos s)"
    and keep: "\<And>j. j < length (todos s) \<Longrightarrow> length ?got \<le> sizeof_Todo * j \<Longrightarrow>
        ts' ! j = todos s ! j"
    and got: "\<And>j. sizeof_Todo * Suc j \<le> length ?got \<Longrightarrow>
        ts' ! j = decode_todo (take sizeof_Todo (drop (sizeof_Todo * j) ?got))"
    by blast
  have load: "load_todos (Some bytes) s = Some (s\<lparr>todo_count := ?c, todos := ts'\<rparr>)"
    unfolding load_todos_def
    by (simp only: option.case Let_def header requested_bytes [OF cnt] r) simp
  have a: "ts' ! j = todos s ! j" if "j < MAX_TODOS" "length bytes - 4 \<le> sizeof_Todo * j" for j
  proof -
    have "length ?got \<le> length bytes - 4"
      by simp
    then have "length ?got \<le> sizeof_Todo * j"
      using that(2) by (rule order_trans)
    then show ?thesis
      using keep that(1) slots by simp
  qed
  have b: "ts' ! j = decode_todo (take sizeof_Todo (drop (4 + sizeof_Todo * j) bytes))"
    if "j < ?n" "4 + sizeof_Todo * Suc j \<le> length bytes" for j
  proof -
    have "Suc j \<le> ?n"
      using that(1) by simp
    then have le: "sizeof_Todo * Suc j \<le> sizeof_Todo * ?n"
      by (rule mult_le_mono2)
    then have "sizeof_Todo * Suc j \<le> length ?got"
      using that(2) by simp
    from got [OF this] have "ts' ! j = decode_todo (take sizeof_Todo (drop (sizeof_Todo * j) ?got))" .
    moreover have "take sizeof_Todo (drop (sizeof_Todo * j) ?got) =
        take sizeof_Todo (drop (4 + sizeof_Todo * j) bytes)"
      using le by (simp add: drop_take min_def add.commute)
    ultimately show ?thesis by simp
  qed
  show ?thesis
    using load len a b by simp
qed

text \<open>
  Claim C4, as amended. The claim says that a missing, truncated or unreadable file
  leaves the store empty. The code does so for a missing file and for an empty one:
  the state stays as it is, and the count is 0 at startup. A file cut off behind a
  complete count header is not detected: \<^verbatim>\<open>load_todos\<close> returns with the count that the
  header announces (within 0..100), whatever follows; the records that are completely
  present are loaded and the slots that the bytes of the file do not reach keep their
  contents.
\<close>

theorem load_missing_or_truncated:
  "load_todos None s = Some s \<and> load_todos (Some []) s = Some s \<and>
   todo_count init_state = 0 \<and>
   (4 \<le> length bytes \<and> 0 \<le> sint (decode_int bytes) \<and> sint (decode_int bytes) \<le> MAX_TODOS \<and>
    length (todos s) = MAX_TODOS \<longrightarrow>
      (\<exists>s'. load_todos (Some bytes) s = Some s' \<and> todo_count s' = decode_int bytes \<and>
         length (todos s') = length (todos s) \<and>
         (\<forall>j < MAX_TODOS. length bytes - 4 \<le> sizeof_Todo * j \<longrightarrow> todos s' ! j = todos s ! j) \<and>
         (\<forall>j < nat (sint (decode_int bytes)). 4 + sizeof_Todo * Suc j \<le> length bytes \<longrightarrow>
            todos s' ! j = decode_todo (take sizeof_Todo (drop (4 + sizeof_Todo * j) bytes)))))"
  using load_empty [of s] load_header [of bytes s]
  by (simp add: load_todos_def init_state_def)

lemma decode_trunc: "decode_int trunc_file = 2"
  by (simp add: decode_int_def trunc_file_def)

theorem load_missing_or_truncated_witness:
  "4 \<le> length trunc_file \<and> 0 \<le> sint (decode_int trunc_file) \<and>
   sint (decode_int trunc_file) \<le> MAX_TODOS \<and> length (todos init_state) = MAX_TODOS \<and>
   load_todos None init_state = Some init_state \<and> todo_count init_state = 0 \<and>
   (\<exists>s'. load_todos (Some trunc_file) init_state = Some s' \<and> todo_count s' = 2 \<and>
      todos s' ! 0 = todos init_state ! 0 \<and> todos s' ! 1 = todos init_state ! 1)"
proof -
  have a: "4 \<le> length trunc_file" and b: "0 \<le> sint (decode_int trunc_file)"
    and c: "sint (decode_int trunc_file) \<le> MAX_TODOS"
    and d: "length (todos init_state) = MAX_TODOS"
    by (simp_all add: decode_trunc) (simp_all add: trunc_file_def init_state_def)
  have e: "length trunc_file - 4 \<le> sizeof_Todo * 0" "length trunc_file - 4 \<le> sizeof_Todo * 1"
    by (simp_all add: trunc_file_def)
  from load_missing_or_truncated [of init_state trunc_file] a b c d e
  have "\<exists>s'. load_todos (Some trunc_file) init_state = Some s' \<and> todo_count s' = 2 \<and>
      todos s' ! 0 = todos init_state ! 0 \<and> todos s' ! 1 = todos init_state ! 1"
    by (auto simp: decode_trunc)
  with load_missing_or_truncated [of init_state trunc_file] a b c d show ?thesis
    by blast
qed

text \<open>
  Claim C4 as stated fails: a file of four bytes that announces two records is shorter
  than its header plus two records, and loading it at startup sets the count to 2.
\<close>

theorem load_truncated_counterexample:
  "length trunc_file < 4 + sizeof_Todo * nat (sint (decode_int trunc_file)) \<and>
   map_option todo_count (load_todos (Some trunc_file) init_state) = Some 2 \<and>
   map_option todo_count (load_todos (Some trunc_file) init_state) \<noteq> Some 0"
proof -
  have "4 \<le> length trunc_file" "length (todos init_state) = MAX_TODOS"
    by (simp_all add: trunc_file_def init_state_def)
  from load_header [OF this(1) _ _ this(2)]
  obtain s' where "load_todos (Some trunc_file) init_state = Some s'" "todo_count s' = 2"
    by (auto simp: decode_trunc)
  then have "map_option todo_count (load_todos (Some trunc_file) init_state) = Some 2"
    by simp
  moreover have "length trunc_file < 4 + sizeof_Todo * nat (sint (decode_int trunc_file))"
    by (simp add: decode_trunc sizeof_Todo_def) (simp add: trunc_file_def)
  ultimately show ?thesis
    by (simp del: map_option_eq_Some)
qed

end
